theory Spec2Isabelle
  imports Main
begin

section \<open>Python values, dictionaries and exceptions\<close>

text \<open>
  The module \<^verbatim>\<open>integration_agent/util/print.py\<close> walks a \<^verbatim>\<open>networkx.DiGraph\<close> whose
  nodes carry attribute dictionaries. Attribute values are Python objects; the model keeps
  the kinds that decide what the code does with them: strings, integers, \<^verbatim>\<open>None\<close>, lists
  and dictionaries. A dictionary is an association list in insertion order, looked up with
  \<open>map_of\<close>.
\<close>

type_synonym node = string

datatype pyval =
    PStr string
  | PInt int
  | PNone
  | PList "pyval list"
  | PDict "(string \<times> pyval) list"

type_synonym pydict = "(string \<times> pyval) list"

datatype error =
    KeyError
  | AttributeError
  | TypeError
  | NetworkXError
  | LLMError

text \<open>\<^verbatim>\<open>d.get(k, default)\<close> on a dictionary \<open>d\<close>.\<close>

definition dict_get :: "pydict \<Rightarrow> string \<Rightarrow> pyval \<Rightarrow> pyval" where
  "dict_get d k dflt = (case map_of d k of None \<Rightarrow> dflt | Some v \<Rightarrow> v)"

text \<open>
  \<^verbatim>\<open>x.get(k, default)\<close> on an arbitrary object \<open>x\<close>: only a dictionary has the method;
  on a string, an integer, \<^verbatim>\<open>None\<close> or a list the attribute lookup raises AttributeError.
\<close>

fun py_get :: "pyval \<Rightarrow> string \<Rightarrow> pyval \<Rightarrow> error + pyval" where
  "py_get (PDict d) k dflt = Inr (dict_get d k dflt)"
| "py_get _ k dflt = Inl AttributeError"

text \<open>Truth value of an object, as \<^verbatim>\<open>if x:\<close> tests it.\<close>

fun truthy :: "pyval \<Rightarrow> bool" where
  "truthy (PStr s) = (s \<noteq> [])"
| "truthy (PInt i) = (i \<noteq> 0)"
| "truthy PNone = False"
| "truthy (PList xs) = (xs \<noteq> [])"
| "truthy (PDict d) = (d \<noteq> [])"

text \<open>
  \<^verbatim>\<open>len(x)\<close>: defined on strings, lists and dictionaries, TypeError otherwise. A string
  of the model is a list of 8-bit characters, so that a character outside ASCII counts
  once for each byte of its encoding where Python counts it once.
\<close>

fun py_len :: "pyval \<Rightarrow> error + nat" where
  "py_len (PStr s) = Inr (length s)"
| "py_len (PList xs) = Inr (length xs)"
| "py_len (PDict d) = Inr (length d)"
| "py_len _ = Inl TypeError"

text \<open>\<^verbatim>\<open>s.remove(x)\<close> on a set raises KeyError when \<open>x\<close> is not a member.\<close>

definition set_remove :: "'a \<Rightarrow> 'a set \<Rightarrow> error + 'a set" where
  "set_remove x S = (if x \<in> S then Inr (S - {x}) else Inl KeyError)"

text \<open>
  \<^verbatim>\<open>s.strip()\<close>: leading and trailing whitespace removed (the ASCII whitespace
  characters tab, line feed, vertical tab, form feed, carriage return, the four
  separators 0x1C..0x1F and space; the whitespace characters Python knows outside ASCII
  are left in place).
\<close>

definition is_space :: "char \<Rightarrow> bool" where
  "is_space c = (c \<in> set [CHR 0x09, CHR 0x0A, CHR 0x0B, CHR 0x0C, CHR 0x0D,
                           CHR 0x1C, CHR 0x1D, CHR 0x1E, CHR 0x1F, CHR 0x20])"

definition strip :: "string \<Rightarrow> string" where
  "strip s = rev (dropWhile is_space (rev (dropWhile is_space s)))"

text \<open>
  What the module uses but does not define is a parameter of the model:
  \<^item> \<open>str_of\<close> is Python's \<^verbatim>\<open>str()\<close>, which an f-string applies to each interpolated value;
  \<^item> \<open>llm_invoke\<close> is \<^verbatim>\<open>llm.get_instance().invoke(prompt).content\<close> of
    \<^verbatim>\<open>integration_agent.util.LLM\<close>: the text the language model answers to a prompt, or
    the exception the call raises.
\<close>

record env =
  str_of :: "pyval \<Rightarrow> string"
  llm_invoke :: "string \<Rightarrow> error + string"


section \<open>The graph store\<close>

text \<open>
  A \<^verbatim>\<open>networkx.DiGraph\<close>: \<open>node_data\<close> is the dictionary \<^verbatim>\<open>graph.nodes\<close> from node id to
  attribute dictionary, in insertion order; \<open>edge_list\<close> holds the directed edges in
  insertion order.
\<close>

record graph =
  node_data :: "(node \<times> pydict) list"
  edge_list :: "(node \<times> node) list"

definition nodes :: "graph \<Rightarrow> node list" where
  "nodes g = map fst (node_data g)"

text \<open>\<^verbatim>\<open>graph.nodes[n]\<close>: KeyError when \<open>n\<close> is not a node.\<close>

definition node_attrs_of :: "graph \<Rightarrow> node \<Rightarrow> error + pydict" where
  "node_attrs_of g n = (case map_of (node_data g) n of None \<Rightarrow> Inl KeyError | Some d \<Rightarrow> Inr d)"

text \<open>\<^verbatim>\<open>list(graph.successors(n))\<close>: NetworkXError when \<open>n\<close> is not a node.\<close>

definition successors :: "graph \<Rightarrow> node \<Rightarrow> error + node list" where
  "successors g n =
     (if n \<in> set (nodes g) then Inr (map snd (filter (\<lambda>e. fst e = n) (edge_list g)))
      else Inl NetworkXError)"

text \<open>\<^verbatim>\<open>graph.in_degree(n)\<close>: the number of edges that end in \<open>n\<close>.\<close>

definition in_degree :: "graph \<Rightarrow> node \<Rightarrow> nat" where
  "in_degree g n = length (filter (\<lambda>e. snd e = n) (edge_list g))"

text \<open>
  What the \<^verbatim>\<open>DiGraph\<close> class maintains by construction: node ids are the keys of a
  dictionary, there is at most one edge between two nodes in each direction, and both
  ends of every edge are nodes.
\<close>

definition wf_graph :: "graph \<Rightarrow> bool" where
  "wf_graph g \<longleftrightarrow>
     distinct (nodes g) \<and> distinct (edge_list g) \<and>
     list_all (\<lambda>e. fst e \<in> set (nodes g) \<and> snd e \<in> set (nodes g)) (edge_list g)"


section \<open>Printed lines\<close>

text \<open>
  Standard output is the list of the texts printed, one entry for each call of
  \<^verbatim>\<open>print\<close> (a label of the forward traversal spans several lines of text). Each entry
  carries a tag saying which \<^verbatim>\<open>print\<close> statement wrote it and for which node; the tag is
  bookkeeping of the model, the text printed is the second component.
\<close>

datatype event =
    Labelled node
  | AlreadyVisited node
  | Notice

type_synonym stdout = "(event \<times> string) list"

text \<open>The node ids of the label lines, in the order printed.\<close>

fun emitted_of :: "stdout \<Rightarrow> node list" where
  "emitted_of [] = []"
| "emitted_of ((Labelled n, l) # rest) = n # emitted_of rest"
| "emitted_of (_ # rest) = emitted_of rest"

text \<open>
  The connector glyphs, as UTF-8: U+2514 U+2500 U+2500 and a space for the last sibling,
  U+251C U+2500 U+2500 and a space otherwise; the indentation is four spaces under a last
  sibling and U+2502 with three spaces otherwise.
\<close>

definition connector_of :: "bool \<Rightarrow> string" where
  "connector_of is_last =
     (if is_last
      then [CHR 0xE2, CHR 0x94, CHR 0x94, CHR 0xE2, CHR 0x94, CHR 0x80,
            CHR 0xE2, CHR 0x94, CHR 0x80, CHR 0x20]
      else [CHR 0xE2, CHR 0x94, CHR 0x9C, CHR 0xE2, CHR 0x94, CHR 0x80,
            CHR 0xE2, CHR 0x94, CHR 0x80, CHR 0x20])"

definition indent_of :: "bool \<Rightarrow> string" where
  "indent_of is_last =
     (if is_last then ''    '' else [CHR 0xE2, CHR 0x94, CHR 0x82, CHR 0x20, CHR 0x20, CHR 0x20])"

definition depth_reached :: "int option \<Rightarrow> int \<Rightarrow> bool" where
  "depth_reached max_depth depth = (case max_depth of None \<Rightarrow> False | Some m \<Rightarrow> depth \<ge> m)"


section \<open>Forward traversal: \<^verbatim>\<open>print_dag\<close>\<close>

text \<open>
  Lines 26 to 38 of \<^verbatim>\<open>print_dag\<close>: the label of the current node. The default of
  \<^verbatim>\<open>content\<close> is the empty string, and \<^verbatim>\<open>.get("key", "")\<close> is then called on it.
\<close>

definition forward_label :: "env \<Rightarrow> graph \<Rightarrow> node \<Rightarrow> string \<Rightarrow> error + string" where
  "forward_label ev g current_node_id new_prefix =
     (case node_attrs_of g current_node_id of
        Inl e \<Rightarrow> Inl e
      | Inr node_attrs \<Rightarrow>
          let dynamic_parts = dict_get node_attrs ''dynamic_parts'' (PList []) in
          (case py_get (dict_get node_attrs ''content'' (PStr '''')) ''key'' (PStr '''') of
             Inl e \<Rightarrow> Inl e
           | Inr key \<Rightarrow>
               let extracted_parts = dict_get node_attrs ''extracted_parts'' (PList []);
                   input_variables = dict_get node_attrs ''input_variables'' (PList []);
                   node_type = dict_get node_attrs ''node_type'' (PStr '''');
                   l0 = ''['' @ str_of ev node_type @ ''] [node_id: '' @ current_node_id @ '']'';
                   l1 = (if truthy input_variables
                         then l0 @ [CHR 0x0A] @ new_prefix @ ''    [input_variables: ''
                                 @ str_of ev input_variables @ '']''
                         else l0);
                   l2 = l1 @ [CHR 0x0A] @ new_prefix @ ''    [dynamic_parts: ''
                           @ str_of ev dynamic_parts @ '']'';
                   l3 = l2 @ [CHR 0x0A] @ new_prefix @ ''    [extracted_parts: ''
                           @ str_of ev extracted_parts @ '']'';
                   l4 = l3 @ [CHR 0x0A] @ new_prefix @ ''    ['' @ str_of ev key @ '']''
               in Inr l4))"

text \<open>
  The state a walk threads through its calls: the \<^verbatim>\<open>visited\<close> set, which the calls
  share and mutate, and standard output.
\<close>

record walk =
  visited :: "node set"
  out :: stdout

text \<open>
  \<^verbatim>\<open>print_dag\<close> calls itself inside its loop over the children, and each call sees the
  \<^verbatim>\<open>visited\<close> set the calls before it left behind. The first argument bounds the depth
  of the call stack: a call needs one frame, and \<open>None\<close> says that the frames ran out.
  \<open>Some (Inl e)\<close> is the exception \<open>e\<close> leaving the call (what was printed before it is
  not kept), \<open>Some (Inr st)\<close> a normal return. \<open>print_dag_children\<close> is the
  \<^verbatim>\<open>for i, child_id in enumerate(children)\<close> loop. A caller that passes no \<^verbatim>\<open>visited\<close>
  set (lines 20 and 21 then make a fresh one) starts from a state whose set is empty.
\<close>

fun print_dag ::
    "nat \<Rightarrow> env \<Rightarrow> graph \<Rightarrow> node \<Rightarrow> string \<Rightarrow> bool \<Rightarrow> int \<Rightarrow> int option \<Rightarrow> walk
      \<Rightarrow> (error + walk) option"
  and print_dag_children ::
    "nat \<Rightarrow> env \<Rightarrow> graph \<Rightarrow> string \<Rightarrow> nat \<Rightarrow> int \<Rightarrow> int option \<Rightarrow> (nat \<times> node) list \<Rightarrow> walk
      \<Rightarrow> (error + walk) option"
where
  "print_dag 0 ev g current_node_id prefix is_last depth max_depth st = None"
| "print_dag (Suc fuel) ev g current_node_id prefix is_last depth max_depth st =
     (let connector = connector_of is_last;
          new_prefix = prefix @ indent_of is_last
      in case forward_label ev g current_node_id new_prefix of
           Inl e \<Rightarrow> Some (Inl e)
         | Inr node_label \<Rightarrow>
             let st1 = st\<lparr>out := out st @ [(Labelled current_node_id,
                                              prefix @ connector @ node_label)]\<rparr>;
                 st2 = st1\<lparr>visited := insert current_node_id (visited st1)\<rparr>
             in if depth_reached max_depth depth then Some (Inr st2)
                else (case successors g current_node_id of
                        Inl e \<Rightarrow> Some (Inl e)
                      | Inr children \<Rightarrow>
                          print_dag_children fuel ev g new_prefix (length children) depth
                            max_depth (enumerate 0 children) st2))"
| "print_dag_children fuel ev g new_prefix child_count depth max_depth [] st = Some (Inr st)"
| "print_dag_children fuel ev g new_prefix child_count depth max_depth ((i, child_id) # rest) st =
     (let is_last_child = (int i = int child_count - 1)
      in if child_id \<in> visited st
         then let loop_connector = connector_of is_last_child
              in print_dag_children fuel ev g new_prefix child_count depth max_depth rest
                   (st\<lparr>out := out st @ [(AlreadyVisited child_id,
                        new_prefix @ loop_connector @ ''(Already visited) [node_id: ''
                          @ child_id @ '']'')]\<rparr>)
         else (case print_dag fuel ev g child_id new_prefix is_last_child (depth + 1)
                      max_depth st of
                 None \<Rightarrow> None
               | Some (Inl e) \<Rightarrow> Some (Inl e)
               | Some (Inr st') \<Rightarrow>
                   print_dag_children fuel ev g new_prefix child_count depth max_depth rest st'))"


section \<open>Reverse traversal: \<^verbatim>\<open>print_dag_in_reverse\<close>\<close>

text \<open>\<^verbatim>\<open>get_node_label\<close>, lines 217 to 235.\<close>

definition get_node_label :: "env \<Rightarrow> graph \<Rightarrow> node \<Rightarrow> error + string" where
  "get_node_label ev g node_id =
     (case node_attrs_of g node_id of
        Inl e \<Rightarrow> Inl e
      | Inr node_attrs \<Rightarrow>
          let dynamic_parts = dict_get node_attrs ''dynamic_parts'' (PStr '''');
              extracted_parts = dict_get node_attrs ''extracted_parts'' (PStr '''');
              content = dict_get node_attrs ''content'' (PStr '''')
          in (case py_get content ''key'' (PStr '''') of
                Inl e \<Rightarrow> Inl e
              | Inr key \<Rightarrow>
                  let input_variables = dict_get node_attrs ''input_variables'' (PStr '''');
                      node_type = dict_get node_attrs ''node_type'' (PStr '''');
                      l0 = ''['' @ str_of ev node_type @ ''] '';
                      l1 = l0 @ ''[node_id: '' @ node_id @ '']'';
                      l2 = l1 @ '' [dynamic_parts: '' @ str_of ev dynamic_parts @ '']'';
                      l3 = l2 @ '' [extracted_parts: '' @ str_of ev extracted_parts @ '']'';
                      l4 = l3 @ '' [input_variables: '' @ str_of ev input_variables @ '']'';
                      l5 = l4 @ '' ['' @ str_of ev key @ '']''
                  in Inr l5))"

text \<open>The three f-strings of \<^verbatim>\<open>generate_code\<close>; \<open>nl\<close> is the line feed.\<close>

definition nl :: string where
  "nl = [CHR 0x0A]"

definition parse_response_prompt :: "string \<Rightarrow> string \<Rightarrow> string" where
  "parse_response_prompt response extracted_parts =
     nl @ ''    The response is below:'' @
     nl @ ''    '' @ response @
     nl @ ''    '' @
     nl @ ''    The below variables should be parsed out of the response:'' @
     nl @ ''    '' @ extracted_parts @
     nl @ ''    ''"

definition get_input_variables_prompt :: "string \<Rightarrow> string" where
  "get_input_variables_prompt input_variables =
     nl @ ''    Assume these variables below are provided by the user:'' @
     nl @ ''    '' @ input_variables @
     nl @
     nl @ ''    The key should be the variable name and the value should be the value to be passed in. '' @
     nl @ ''    ''"

definition prompt_of :: "string \<Rightarrow> string \<Rightarrow> string \<Rightarrow> string \<Rightarrow> string" where
  "prompt_of curl dynamic_parts parse_part input_part =
     nl @ ''    Task:'' @
     nl @ ''    Write me a python function with a descriptive name that makes a request like the cURL below:'' @
     nl @ ''    '' @ curl @
     nl @ ''    '' @
     nl @ ''    Do not hard code cookie headers. Assume cookies are in a variable called ''
        @ [CHR 0x22] @ ''cookie_string'' @ [CHR 0x22] @
     nl @
     nl @ ''    The below variables should be passed into the request instead of hard coded:'' @
     nl @ ''    '' @ dynamic_parts @
     nl @ ''    '' @
     nl @ ''    '' @ parse_part @
     nl @ ''    '' @
     nl @ ''    '' @ input_part @
     nl @
     nl @ ''    Important:'' @
     nl @ ''    - Only output the python script and nothing else.'' @
     nl @ ''    - Don'' @ [CHR 0x27] @ ''t include any backticks.'' @
     nl @ ''    - Do not use HTTP/2 pseudo-headers (those starting with '' @ [CHR 0x27] @ '':''
        @ [CHR 0x27] @ '') in the headers dictionary.'' @
     nl @ ''    - Remove any '' @ [CHR 0x27] @ ''priority'' @ [CHR 0x27] @ '' headers.'' @
     nl @ ''    - Use standard HTTP/1.1 headers only.'' @
     nl @ ''    ''"

text \<open>
  \<^verbatim>\<open>generate_code\<close>, lines 95 to 152. The alternative to the response part is a plain
  string, not an f-string: its braces are printed as they are.
\<close>

definition generate_code :: "env \<Rightarrow> graph \<Rightarrow> node \<Rightarrow> error + string" where
  "generate_code ev g node_id =
     (case node_attrs_of g node_id of
        Inl e \<Rightarrow> Inl e
      | Inr node_attrs \<Rightarrow>
          let content = dict_get node_attrs ''content'' (PStr '''')
          in (case py_get content ''key'' (PStr '''') of
                Inl e \<Rightarrow> Inl e
              | Inr curl \<Rightarrow>
                 (case py_get content ''value'' (PStr '''') of
                    Inl e \<Rightarrow> Inl e
                  | Inr response \<Rightarrow>
                      let dynamic_parts = dict_get node_attrs ''dynamic_parts'' (PStr '''');
                          extracted_parts = dict_get node_attrs ''extracted_parts'' (PStr '''');
                          input_variables = dict_get node_attrs ''input_variables'' (PStr '''')
                      in (case py_len response of
                            Inl e \<Rightarrow> Inl e
                          | Inr n \<Rightarrow>
                              let to_parse_response = \<not> (n > 800000);
                                  prompt = prompt_of (str_of ev curl) (str_of ev dynamic_parts)
                                    (if to_parse_response
                                     then parse_response_prompt (str_of ev response)
                                            (str_of ev extracted_parts)
                                     else ''# parse out the variables {extracted_parts} from the response'')
                                    (if truthy input_variables
                                     then get_input_variables_prompt (str_of ev input_variables)
                                     else '''')
                              in (case llm_invoke ev prompt of
                                    Inl e \<Rightarrow> Inl e
                                  | Inr answer \<Rightarrow> Inr (strip answer))))))"

text \<open>
  The state of a reverse run: the \<^verbatim>\<open>visited\<close> set of the walk in progress and standard
  output as before, the \<^verbatim>\<open>fully_processed\<close> set shared by all walks, the accumulator
  \<^verbatim>\<open>generated_code\<close>, and the files written, as (path, content) pairs. \<open>llm_calls\<close> is
  bookkeeping of the model: the node ids \<^verbatim>\<open>generate_code\<close> was called with, in order.
\<close>

record rwalk = walk +
  fully_processed :: "node set"
  generated_code :: string
  llm_calls :: "node list"
  files :: "(string \<times> string) list"

text \<open>
  \<^verbatim>\<open>_print_dag_recursive\<close>, lines 162 to 215, with \<^verbatim>\<open>max_depth\<close> and \<^verbatim>\<open>to_generate_code\<close>
  of the enclosing call as arguments. The first argument bounds the depth of the call
  stack as in \<open>print_dag\<close>. \<open>emit_node\<close> is lines 209 to 215, what the call does once its
  children have returned; \<open>print_dag_recursive_children\<close> is the loop of lines 197 to
  207, where every child is called with the prefix computed from the parent's
  \<^verbatim>\<open>is_last\<close>. Every call receives both sets, so that the defaults of lines 174 to 177
  are never taken.
\<close>

definition emit_node ::
    "env \<Rightarrow> graph \<Rightarrow> bool \<Rightarrow> node \<Rightarrow> string \<Rightarrow> bool \<Rightarrow> rwalk \<Rightarrow> error + rwalk" where
  "emit_node ev g to_generate_code current_node_id prefix is_last st2 =
     (let connector = connector_of is_last
      in case get_node_label ev g current_node_id of
           Inl e \<Rightarrow> Inl e
         | Inr node_label \<Rightarrow>
             let st3 = st2\<lparr>out := out st2 @ [(Labelled current_node_id,
                                                prefix @ connector @ node_label)]\<rparr>
             in (case (if to_generate_code
                       then (case generate_code ev g current_node_id of
                               Inl e \<Rightarrow> Inl e
                             | Inr code \<Rightarrow>
                                 Inr (st3\<lparr>generated_code := generated_code st3 @ code @ nl @ nl,
                                           llm_calls := llm_calls st3 @ [current_node_id]\<rparr>))
                       else Inr st3) of
                   Inl e \<Rightarrow> Inl e
                 | Inr st4 \<Rightarrow>
                     let st5 = st4\<lparr>fully_processed :=
                                      insert current_node_id (fully_processed st4)\<rparr>
                     in (case set_remove current_node_id (visited st5) of
                           Inl e \<Rightarrow> Inl e
                         | Inr v \<Rightarrow> Inr (st5\<lparr>visited := v\<rparr>))))"

fun print_dag_recursive ::
    "nat \<Rightarrow> env \<Rightarrow> graph \<Rightarrow> int option \<Rightarrow> bool \<Rightarrow> node \<Rightarrow> string \<Rightarrow> bool \<Rightarrow> int \<Rightarrow> rwalk
      \<Rightarrow> (error + rwalk) option"
  and print_dag_recursive_children ::
    "nat \<Rightarrow> env \<Rightarrow> graph \<Rightarrow> int option \<Rightarrow> bool \<Rightarrow> string \<Rightarrow> bool \<Rightarrow> nat \<Rightarrow> int
      \<Rightarrow> (nat \<times> node) list \<Rightarrow> rwalk \<Rightarrow> (error + rwalk) option"
where
  "print_dag_recursive 0 ev g max_depth to_generate_code current_node_id prefix is_last depth st
     = None"
| "print_dag_recursive (Suc fuel) ev g max_depth to_generate_code current_node_id prefix is_last
     depth st =
     (if current_node_id \<in> fully_processed st then Some (Inr st)
      else if current_node_id \<in> visited st then Some (Inr st)
      else
        let st1 = st\<lparr>visited := insert current_node_id (visited st)\<rparr>
        in if depth_reached max_depth depth
           then (case set_remove current_node_id (visited st1) of
                   Inl e \<Rightarrow> Some (Inl e)
                 | Inr v \<Rightarrow> Some (Inr (st1\<lparr>visited := v\<rparr>)))
           else
             (case successors g current_node_id of
                Inl e \<Rightarrow> Some (Inl e)
              | Inr children \<Rightarrow>
                 (case print_dag_recursive_children fuel ev g max_depth to_generate_code
                         prefix is_last (length children) depth (enumerate 0 children) st1 of
                    None \<Rightarrow> None
                  | Some (Inl e) \<Rightarrow> Some (Inl e)
                  | Some (Inr st2) \<Rightarrow>
                      Some (emit_node ev g to_generate_code current_node_id prefix is_last st2))))"
| "print_dag_recursive_children fuel ev g max_depth to_generate_code prefix is_last child_count
     depth [] st = Some (Inr st)"
| "print_dag_recursive_children fuel ev g max_depth to_generate_code prefix is_last child_count
     depth ((i, child_id) # rest) st =
     (let is_last_child = (int i = int child_count - 1);
          new_prefix = prefix @ indent_of is_last
      in case print_dag_recursive fuel ev g max_depth to_generate_code child_id new_prefix
                is_last_child (depth + 1) st of
           None \<Rightarrow> None
         | Some (Inl e) \<Rightarrow> Some (Inl e)
         | Some (Inr st') \<Rightarrow>
             print_dag_recursive_children fuel ev g max_depth to_generate_code prefix is_last
               child_count depth rest st')"

text \<open>Line 238: the nodes without incoming edges, in the order of \<^verbatim>\<open>graph.nodes()\<close>.\<close>

definition source_nodes :: "graph \<Rightarrow> node list" where
  "source_nodes g = filter (\<lambda>n. in_degree g n = 0) (nodes g)"

text \<open>
  Lines 241 to 250: one walk per source node, each with a fresh \<^verbatim>\<open>visited\<close> set and the
  shared \<^verbatim>\<open>fully_processed\<close> set.
\<close>

fun source_loop ::
    "nat \<Rightarrow> env \<Rightarrow> graph \<Rightarrow> int option \<Rightarrow> bool \<Rightarrow> nat \<Rightarrow> (nat \<times> node) list \<Rightarrow> rwalk
      \<Rightarrow> (error + rwalk) option"
where
  "source_loop fuel ev g max_depth to_generate_code source_count [] st = Some (Inr st)"
| "source_loop fuel ev g max_depth to_generate_code source_count ((idx, source_node) # rest) st =
     (let is_last_source = (int idx = int source_count - 1)
      in case print_dag_recursive fuel ev g max_depth to_generate_code source_node ''''
                is_last_source 0 (st\<lparr>visited := {}\<rparr>) of
           None \<Rightarrow> None
         | Some (Inl e) \<Rightarrow> Some (Inl e)
         | Some (Inr st') \<Rightarrow>
             source_loop fuel ev g max_depth to_generate_code source_count rest st')"

definition saved_notice :: string where
  "saved_notice = ''Generated code has been saved to '' @ [CHR 0x27] @ ''generated_code.txt''
                    @ [CHR 0x27]"

definition initial_rwalk :: rwalk where
  "initial_rwalk = \<lparr>visited = {}, out = [], fully_processed = {}, generated_code = '''',
                     llm_calls = [], files = []\<rparr>"

text \<open>
  \<^verbatim>\<open>print_dag_in_reverse\<close>: the walks, then lines 252 to 255, where the accumulated text
  is written to \<^verbatim>\<open>generated_code.txt\<close> and the notice is printed. That the file system
  may refuse the write is outside the model.
\<close>

definition print_dag_in_reverse ::
    "nat \<Rightarrow> env \<Rightarrow> graph \<Rightarrow> int option \<Rightarrow> bool \<Rightarrow> (error + rwalk) option" where
  "print_dag_in_reverse fuel ev g max_depth to_generate_code =
     (let sources = source_nodes g
      in case source_loop fuel ev g max_depth to_generate_code (length sources)
                (enumerate 0 sources) initial_rwalk of
           None \<Rightarrow> None
         | Some (Inl e) \<Rightarrow> Some (Inl e)
         | Some (Inr st) \<Rightarrow>
             if to_generate_code
             then Some (Inr (st\<lparr>files := files st @ [(''generated_code.txt'', generated_code st)],
                                out := out st @ [(Notice, saved_notice)]\<rparr>))
             else Some (Inr st))"

text \<open>The node ids emitted by a run, in order.\<close>

definition emitted :: "'a walk_scheme \<Rightarrow> node list" where
  "emitted st = emitted_of (out st)"

section \<open>Returned calls as a relation\<close>

text \<open>
  \<open>rwalks \<dots> n p il d st st'\<close> says that a call of \<^verbatim>\<open>_print_dag_recursive\<close> on node \<open>n\<close>
  in state \<open>st\<close> returns normally in state \<open>st'\<close>, one rule per path through the body;
  \<open>rchildren\<close> is the same for the loop over the children. The relation is derived from
  the functions (lemma \<open>rwalks_sound\<close>) and serves as their induction principle.
\<close>

inductive rwalks ::
    "env \<Rightarrow> graph \<Rightarrow> int option \<Rightarrow> bool \<Rightarrow> node \<Rightarrow> string \<Rightarrow> bool \<Rightarrow> int \<Rightarrow> rwalk \<Rightarrow> rwalk \<Rightarrow> bool"
  and rchildren ::
    "env \<Rightarrow> graph \<Rightarrow> int option \<Rightarrow> bool \<Rightarrow> string \<Rightarrow> bool \<Rightarrow> nat \<Rightarrow> int \<Rightarrow> (nat \<times> node) list
      \<Rightarrow> rwalk \<Rightarrow> rwalk \<Rightarrow> bool"
  for ev :: env and g :: graph and max_depth :: "int option" and gen :: bool
where
  r_done: "n \<in> fully_processed st \<Longrightarrow> rwalks ev g max_depth gen n p il d st st"
| r_cycle: "n \<notin> fully_processed st \<Longrightarrow> n \<in> visited st \<Longrightarrow> rwalks ev g max_depth gen n p il d st st"
| r_limit: "n \<notin> fully_processed st \<Longrightarrow> n \<notin> visited st \<Longrightarrow> depth_reached max_depth d
     \<Longrightarrow> rwalks ev g max_depth gen n p il d st st"
| r_emit: "n \<notin> fully_processed st \<Longrightarrow> n \<notin> visited st \<Longrightarrow> \<not> depth_reached max_depth d
     \<Longrightarrow> successors g n = Inr cs
     \<Longrightarrow> rchildren ev g max_depth gen p il (length cs) d (enumerate 0 cs)
           (st\<lparr>visited := insert n (visited st)\<rparr>) st2
     \<Longrightarrow> emit_node ev g gen n p il st2 = Inr st'
     \<Longrightarrow> rwalks ev g max_depth gen n p il d st st'"
| c_nil: "rchildren ev g max_depth gen p il cnt d [] st st"
| c_cons: "rwalks ev g max_depth gen c (p @ indent_of il) (int i = int cnt - 1) (d + 1) st st1
     \<Longrightarrow> rchildren ev g max_depth gen p il cnt d rest st1 st'
     \<Longrightarrow> rchildren ev g max_depth gen p il cnt d ((i, c) # rest) st st'"

text \<open>The edge relation of a graph.\<close>

definition edges :: "graph \<Rightarrow> (node \<times> node) set" where
  "edges g = set (edge_list g)"

text \<open>
  A graph as section 3 of the specification describes it: every node carries what
  \<^verbatim>\<open>get_node_label\<close> reads and, when code is generated, what \<^verbatim>\<open>generate_code\<close> reads,
  so that neither raises.
\<close>

definition rendering_ok :: "env \<Rightarrow> graph \<Rightarrow> bool \<Rightarrow> bool" where
  "rendering_ok ev g gen \<longleftrightarrow>
     list_all (\<lambda>n. \<not> isl (get_node_label ev g n) \<and> (gen \<longrightarrow> \<not> isl (generate_code ev g n)))
       (nodes g)"

text \<open>
  The effect of a returned call, as the list \<open>ns\<close> of the nodes it emitted: \<^verbatim>\<open>visited\<close> is
  restored, the nodes are new, pairwise different, and appended to the output, to
  \<^verbatim>\<open>fully_processed\<close> and, when code is generated, block by block to \<^verbatim>\<open>generated_code\<close>.
\<close>

definition extends :: "env \<Rightarrow> graph \<Rightarrow> bool \<Rightarrow> rwalk \<Rightarrow> rwalk \<Rightarrow> node list \<Rightarrow> bool" where
  "extends ev g gen st st' ns \<longleftrightarrow>
     visited st' = visited st \<and>
     emitted st' = emitted st @ ns \<and>
     fully_processed st' = fully_processed st \<union> set ns \<and>
     distinct ns \<and>
     set ns \<inter> (fully_processed st \<union> visited st) = {} \<and>
     files st' = files st \<and>
     (if gen
      then llm_calls st' = llm_calls st @ ns \<and>
           (\<exists>codes. map (generate_code ev g) ns = map Inr codes \<and>
              generated_code st' = generated_code st @ concat (map (\<lambda>c. c @ nl @ nl) codes))
      else llm_calls st' = llm_calls st \<and> generated_code st' = generated_code st)"


text \<open>
  Every edge out of a fully processed node leads to a node that is fully processed or on
  the path of the walk in progress.
\<close>

definition closed :: "graph \<Rightarrow> rwalk \<Rightarrow> bool" where
  "closed g st \<longleftrightarrow>
     (\<forall>u \<in> fully_processed st. \<forall>v. (u, v) \<in> edges g \<longrightarrow> v \<in> fully_processed st \<union> visited st)"

text \<open>In a list in post-order, the successors of an entry stand before it.\<close>

definition post_ordered :: "(node \<times> node) set \<Rightarrow> node list \<Rightarrow> bool" where
  "post_ordered E xs \<longleftrightarrow> (\<forall>a u b. xs = a @ u # b \<longrightarrow> (\<forall>v. (u, v) \<in> E \<longrightarrow> v \<in> set a))"

text \<open>
  A call finishes when the call stack suffices; it may raise only where labelling or code
  generation raises.
\<close>

definition finishes :: "env \<Rightarrow> graph \<Rightarrow> bool \<Rightarrow> (error + rwalk) option \<Rightarrow> bool" where
  "finishes ev g gen r =
     (case r of None \<Rightarrow> False | Some (Inl e) \<Rightarrow> \<not> rendering_ok ev g gen | Some (Inr st') \<Rightarrow> True)"

text \<open>The fully processed nodes are the emitted ones, and they were emitted in post-order.\<close>

definition in_order :: "graph \<Rightarrow> rwalk \<Rightarrow> bool" where
  "in_order g st \<longleftrightarrow>
     fully_processed st = set (emitted st) \<and> post_ordered (edges g) (emitted st)"


text \<open>
  The same for the forward traversal: \<open>fwalks \<dots> n p il d st st'\<close> says that a call of
  \<^verbatim>\<open>print_dag\<close> on node \<open>n\<close> in state \<open>st\<close> returns normally in state \<open>st'\<close>, and
  \<open>fchildren\<close> that its loop over the children does (lemma \<open>fwalks_sound\<close>).
\<close>

inductive fwalks ::
    "env \<Rightarrow> graph \<Rightarrow> int option \<Rightarrow> node \<Rightarrow> string \<Rightarrow> bool \<Rightarrow> int \<Rightarrow> walk \<Rightarrow> walk \<Rightarrow> bool"
  and fchildren ::
    "env \<Rightarrow> graph \<Rightarrow> int option \<Rightarrow> string \<Rightarrow> nat \<Rightarrow> int \<Rightarrow> (nat \<times> node) list
      \<Rightarrow> walk \<Rightarrow> walk \<Rightarrow> bool"
  for ev :: env and g :: graph and max_depth :: "int option"
where
  f_limit: "forward_label ev g n (p @ indent_of il) = Inr l \<Longrightarrow> depth_reached max_depth d
     \<Longrightarrow> fwalks ev g max_depth n p il d st
           (st\<lparr>out := out st @ [(Labelled n, p @ connector_of il @ l)],
               visited := insert n (visited st)\<rparr>)"
| f_expand: "forward_label ev g n (p @ indent_of il) = Inr l \<Longrightarrow> \<not> depth_reached max_depth d
     \<Longrightarrow> successors g n = Inr cs
     \<Longrightarrow> fchildren ev g max_depth (p @ indent_of il) (length cs) d (enumerate 0 cs)
           (st\<lparr>out := out st @ [(Labelled n, p @ connector_of il @ l)],
               visited := insert n (visited st)\<rparr>) st'
     \<Longrightarrow> fwalks ev g max_depth n p il d st st'"
| fc_nil: "fchildren ev g max_depth np cnt d [] st st"
| fc_seen: "c \<in> visited st
     \<Longrightarrow> fchildren ev g max_depth np cnt d rest
           (st\<lparr>out := out st @ [(AlreadyVisited c,
                  np @ connector_of (int i = int cnt - 1) @ ''(Already visited) [node_id: ''
                    @ c @ '']'')]\<rparr>) st'
     \<Longrightarrow> fchildren ev g max_depth np cnt d ((i, c) # rest) st st'"
| fc_new: "c \<notin> visited st
     \<Longrightarrow> fwalks ev g max_depth c np (int i = int cnt - 1) (d + 1) st st1
     \<Longrightarrow> fchildren ev g max_depth np cnt d rest st1 st'
     \<Longrightarrow> fchildren ev g max_depth np cnt d ((i, c) # rest) st st'"

text \<open>
  A well-formed forward trace, read from a set \<open>V\<close> of nodes visited before it: a label
  line is for a node not yet visited, which is visited from then on; an already-visited
  line is for a node visited before and has the text of line 55; nothing else is printed.
\<close>

fun trace_ok :: "node set \<Rightarrow> stdout \<Rightarrow> bool" where
  "trace_ok V [] = True"
| "trace_ok V ((Labelled n, t) # r) = (n \<notin> V \<and> trace_ok (insert n V) r)"
| "trace_ok V ((AlreadyVisited c, t) # r) =
     (c \<in> V \<and> (\<exists>p il. t = p @ connector_of il @ ''(Already visited) [node_id: '' @ c @ '']'')
      \<and> trace_ok V r)"
| "trace_ok V ((Notice, t) # r) = False"


text \<open>\<^verbatim>\<open>print_dag\<close> can label every node of the graph: none of lines 26 to 38 raises.\<close>

definition forward_ok :: "env \<Rightarrow> graph \<Rightarrow> bool" where
  "forward_ok ev g \<longleftrightarrow> list_all (\<lambda>n. \<not> isl (forward_label ev g n [])) (nodes g)"

text \<open>A forward call finishes when the call stack suffices; it may raise only where labelling raises.\<close>

definition ffinishes :: "env \<Rightarrow> graph \<Rightarrow> (error + walk) option \<Rightarrow> bool" where
  "ffinishes ev g r =
     (case r of None \<Rightarrow> False | Some (Inl e) \<Rightarrow> \<not> forward_ok ev g | Some (Inr st') \<Rightarrow> True)"


section \<open>Sample inputs\<close>

text \<open>
  An environment whose \<^verbatim>\<open>str()\<close> prints strings as they are and whose language model
  answers every prompt, and small graphs: a node without attributes, the shared-child
  graph A\<rightarrow>B, A\<rightarrow>C, B\<rightarrow>C of the specification, and a three-node cycle with and
  without an entry node.
\<close>

definition sample_env :: env where
  "sample_env = \<lparr>str_of = (\<lambda>v. case v of PStr s \<Rightarrow> s | _ \<Rightarrow> ''<object>''),
                  llm_invoke = (\<lambda>prompt. Inr ''pass'')\<rparr>"

definition bare_graph :: graph where
  "bare_graph = \<lparr>node_data = [(''n1'', [])], edge_list = []\<rparr>"

definition request :: "string \<Rightarrow> pydict" where
  "request curl = [(''content'', PDict [(''key'', PStr curl), (''value'', PStr ''ok'')])]"

definition abc_graph :: graph where
  "abc_graph = \<lparr>node_data = [(''A'', request ''curl a''), (''B'', request ''curl b''),
                               (''C'', request ''curl c'')],
                 edge_list = [(''A'', ''B''), (''A'', ''C''), (''B'', ''C'')]\<rparr>"

definition cycle_graph :: graph where
  "cycle_graph = \<lparr>node_data = [(''A'', request ''curl a''), (''B'', request ''curl b''),
                                 (''C'', request ''curl c'')],
                   edge_list = [(''A'', ''B''), (''B'', ''C''), (''C'', ''A'')]\<rparr>"

definition entered_cycle_graph :: graph where
  "entered_cycle_graph =
     \<lparr>node_data = [(''S'', request ''curl s''), (''A'', request ''curl a''),
                    (''B'', request ''curl b''), (''C'', request ''curl c'')],
      edge_list = [(''S'', ''A''), (''A'', ''B''), (''B'', ''C''), (''C'', ''A'')]\<rparr>"

section \<open>Lemmas on the reverse traversal\<close>

lemma insert_remove_state: "n \<notin> visited (st::rwalk) \<Longrightarrow> st\<lparr>visited := insert n (visited st) - {n}\<rparr> = st"
  by simp

lemma rwalks_sound:
  "print_dag_recursive fuel ev g md gen n p il d st = Some (Inr st')
     \<Longrightarrow> rwalks ev g md gen n p il d st st'"
  "print_dag_recursive_children fuel ev g md gen p il cnt d cs st = Some (Inr st')
     \<Longrightarrow> rchildren ev g md gen p il cnt d cs st st'"
proof (induction fuel ev g md gen n p il d st and fuel ev g md gen p il cnt d cs st
       arbitrary: st' and st'
       rule: print_dag_recursive_print_dag_recursive_children.induct)
  case (1 ev g max_depth to_generate_code current_node_id prefix is_last depth st)
  then show ?case by simp
next
  case (2 fuel ev g max_depth to_generate_code current_node_id prefix is_last depth st)
  show ?case
    using "2.prems" "2.IH"
    by (auto simp: Let_def set_remove_def split: if_splits sum.splits option.splits
             intro: rwalks_rchildren.intros)
next
  case (3 fuel ev g max_depth to_generate_code prefix is_last child_count depth st)
  then show ?case by (auto intro: rwalks_rchildren.intros)
next
  case (4 fuel ev g max_depth to_generate_code prefix is_last child_count depth i child_id rest st)
  from "4.prems" obtain st1 where
    a: "print_dag_recursive fuel ev g max_depth to_generate_code child_id
          (prefix @ indent_of is_last) (int i = int child_count - 1) (depth + 1) st
        = Some (Inr st1)"
    and b: "print_dag_recursive_children fuel ev g max_depth to_generate_code prefix is_last
          child_count depth rest st1 = Some (Inr st')"
    by (auto simp: Let_def split: sum.splits option.splits)
  have "rwalks ev g max_depth to_generate_code child_id (prefix @ indent_of is_last)
          (int i = int child_count - 1) (depth + 1) st st1"
    using "4.IH"(1) a by simp
  moreover have "rchildren ev g max_depth to_generate_code prefix is_last child_count depth
          rest st1 st'"
    using "4.IH"(2) a b by simp
  ultimately show ?case by (rule c_cons)
qed

lemma emitted_of_append: "emitted_of (xs @ ys) = emitted_of xs @ emitted_of ys"
  by (induction xs rule: emitted_of.induct) auto

lemma successors_set: "successors g n = Inr cs \<Longrightarrow> set cs = {v. (n, v) \<in> edges g}"
  by (auto simp: successors_def edges_def split: if_splits) force

lemma successors_nodes: "wf_graph g \<Longrightarrow> successors g n = Inr cs \<Longrightarrow> set cs \<subseteq> set (nodes g)"
  by (auto simp: successors_def wf_graph_def list_all_iff split: if_splits)

lemma successors_ok: "n \<in> set (nodes g) \<Longrightarrow> \<exists>cs. successors g n = Inr cs"
  by (simp add: successors_def)

text \<open>What a successful emission does to the state.\<close>

lemma emit_node_Inr:
  assumes "emit_node ev g gen n p il st2 = Inr st'"
  shows "n \<in> visited st2"
    and "visited st' = visited st2 - {n}"
    and "fully_processed st' = insert n (fully_processed st2)"
    and "\<exists>l. get_node_label ev g n = Inr l \<and>
             out st' = out st2 @ [(Labelled n, p @ connector_of il @ l)]"
    and "files st' = files st2"
    and "gen \<Longrightarrow> llm_calls st' = llm_calls st2 @ [n] \<and>
           (\<exists>code. generate_code ev g n = Inr code \<and>
              generated_code st' = generated_code st2 @ code @ nl @ nl)"
    and "\<not> gen \<Longrightarrow> llm_calls st' = llm_calls st2 \<and> generated_code st' = generated_code st2"
  using assms
  by (auto simp: emit_node_def Let_def set_remove_def split: sum.splits if_splits)

lemma emit_node_succeeds:
  assumes "rendering_ok ev g gen" "n \<in> set (nodes g)" "n \<in> visited st2"
  shows "\<exists>st'. emit_node ev g gen n p il st2 = Inr st'"
proof -
  from assms(1,2) have a: "\<not> isl (get_node_label ev g n)"
    and b: "gen \<Longrightarrow> \<not> isl (generate_code ev g n)"
    by (auto simp: rendering_ok_def list_all_iff)
  from a obtain l where l: "get_node_label ev g n = Inr l"
    by (cases "get_node_label ev g n") auto
  show ?thesis
  proof (cases gen)
    case True
    with b obtain c where "generate_code ev g n = Inr c"
      by (cases "generate_code ev g n") auto
    with l True assms(3) show ?thesis
      by (simp add: emit_node_def Let_def set_remove_def)
  next
    case False
    with l assms(3) show ?thesis
      by (simp add: emit_node_def Let_def set_remove_def)
  qed
qed

lemma extends_refl: "extends ev g gen st st []"
  by (simp add: extends_def)

lemma extends_trans:
  assumes "extends ev g gen st st1 a" "extends ev g gen st1 st2 b"
  shows "extends ev g gen st st2 (a @ b)"
proof (cases gen)
  case True
  from assms True obtain ca cb where
    ca: "map (generate_code ev g) a = map Inr ca"
        "generated_code st1 = generated_code st @ concat (map (\<lambda>c. c @ nl @ nl) ca)"
    and cb: "map (generate_code ev g) b = map Inr cb"
        "generated_code st2 = generated_code st1 @ concat (map (\<lambda>c. c @ nl @ nl) cb)"
    by (auto simp: extends_def)
  have "map (generate_code ev g) (a @ b) = map Inr (ca @ cb)"
    using ca(1) cb(1) by simp
  moreover have "generated_code st2 =
      generated_code st @ concat (map (\<lambda>c. c @ nl @ nl) (ca @ cb))"
    using ca(2) cb(2) by simp
  ultimately have "\<exists>codes. map (generate_code ev g) (a @ b) = map Inr codes \<and>
      generated_code st2 = generated_code st @ concat (map (\<lambda>c. c @ nl @ nl) codes)"
    by blast
  with assms True show ?thesis
    unfolding extends_def by auto
next
  case False
  with assms show ?thesis
    unfolding extends_def by auto
qed

lemma extends_emit:
  assumes "extends ev g gen (st\<lparr>visited := insert n (visited st)\<rparr>) st2 ns"
    and "n \<notin> fully_processed st" "n \<notin> visited st"
    and "emit_node ev g gen n p il st2 = Inr st'"
  shows "extends ev g gen st st' (ns @ [n])"
proof -
  note e = emit_node_Inr[OF assms(4)]
  from e(4) have em: "emitted st' = emitted st2 @ [n]"
    by (auto simp: emitted_def emitted_of_append)
  have em0: "emitted (st\<lparr>visited := insert n (visited st)\<rparr>) = emitted st"
    by (simp add: emitted_def)
  show ?thesis
  proof (cases gen)
    case True
    from assms(1) True obtain cs where
      cs: "map (generate_code ev g) ns = map Inr cs"
          "generated_code st2 = generated_code st @ concat (map (\<lambda>c. c @ nl @ nl) cs)"
      by (auto simp: extends_def)
    from e(6)[OF True] obtain code where
      code: "generate_code ev g n = Inr code"
            "generated_code st' = generated_code st2 @ code @ nl @ nl"
      by auto
    have "map (generate_code ev g) (ns @ [n]) = map Inr (cs @ [code])"
      using cs(1) code(1) by simp
    moreover have "generated_code st' =
        generated_code st @ concat (map (\<lambda>c. c @ nl @ nl) (cs @ [code]))"
      using cs(2) code(2) by simp
    ultimately have "\<exists>codes. map (generate_code ev g) (ns @ [n]) = map Inr codes \<and>
        generated_code st' = generated_code st @ concat (map (\<lambda>c. c @ nl @ nl) codes)"
      by blast
    with assms(1-3) e(1-3,5) e(6)[OF True] em em0 True show ?thesis
      unfolding extends_def by auto
  next
    case False
    with assms(1-3) e(1-3,5) e(7)[OF False] em em0 show ?thesis
      unfolding extends_def by auto
  qed
qed

text \<open>Every returned call extends the state by nodes reachable from where it started.\<close>

lemma rwalks_extends:
  "rwalks ev g md gen n p il d st st'
     \<Longrightarrow> \<exists>ns. extends ev g gen st st' ns \<and> set ns \<subseteq> (edges g)\<^sup>* `` {n}"
  "rchildren ev g md gen p il cnt d cs st st'
     \<Longrightarrow> \<exists>ns. extends ev g gen st st' ns \<and> set ns \<subseteq> (edges g)\<^sup>* `` (snd ` set cs)"
proof (induction rule: rwalks_rchildren.inducts)
  case (r_done n st p il d)
  then show ?case using extends_refl by fastforce
next
  case (r_cycle n st p il d)
  then show ?case using extends_refl by fastforce
next
  case (r_limit n st d p il)
  then show ?case using extends_refl by fastforce
next
  case (r_emit n st d cs p il st2 st')
  then obtain ns where ns: "extends ev g gen (st\<lparr>visited := insert n (visited st)\<rparr>) st2 ns"
    and sub: "set ns \<subseteq> (edges g)\<^sup>* `` (snd ` set (enumerate 0 cs))"
    by blast
  have "snd ` set (enumerate 0 cs) = set cs"
    by (metis list.set_map map_snd_enumerate)
  with sub successors_set[OF r_emit(4)]
  have "set ns \<subseteq> (edges g)\<^sup>* `` {v. (n, v) \<in> edges g}" by simp
  then have "set ns \<subseteq> (edges g)\<^sup>* `` {n}"
    by (auto intro: converse_rtrancl_into_rtrancl)
  moreover have "extends ev g gen st st' (ns @ [n])"
    using extends_emit[OF ns r_emit(1,2) r_emit(7)] .
  ultimately show ?case by (intro exI[of _ "ns @ [n]"]) auto
next
  case (c_nil p il cnt d st)
  then show ?case using extends_refl by fastforce
next
  case (c_cons c p il i cnt d st st1 rest st')
  then obtain a b where a: "extends ev g gen st st1 a" "set a \<subseteq> (edges g)\<^sup>* `` {c}"
    and b: "extends ev g gen st1 st' b" "set b \<subseteq> (edges g)\<^sup>* `` (snd ` set rest)"
    by blast
  have "extends ev g gen st st' (a @ b)"
    using extends_trans[OF a(1) b(1)] .
  moreover have "set (a @ b) \<subseteq> (edges g)\<^sup>* `` (snd ` set ((i, c) # rest))"
    using a(2) b(2) by (simp add: Image_def) blast
  ultimately show ?case by blast
qed

text \<open>With a depth limit of zero every walk from a source returns at once.\<close>

lemma source_loop_depth0:
  "fully_processed st = {} \<Longrightarrow> visited st = {} \<Longrightarrow>
   source_loop (Suc fuel) ev g (Some 0) gen cnt srcs st = Some (Inr st)"
  by (induction srcs arbitrary: st)
     (auto simp: depth_reached_def set_remove_def Let_def)

lemma emit_node_emitted:
  "emit_node ev g gen n p il st2 = Inr st' \<Longrightarrow> emitted st' = emitted st2 @ [n]"
  by (auto dest!: emit_node_Inr(4) simp: emitted_def emitted_of_append)

lemma snd_enumerate: "snd ` set (enumerate k cs) = set cs"
  by (metis list.set_map map_snd_enumerate)

lemma closed_more_visited:
  "closed g st \<Longrightarrow> closed g (st\<lparr>visited := insert n (visited st)\<rparr>)"
  by (auto simp: closed_def)

lemma rwalks_closed:
  "rwalks ev g None gen n p il d st st' \<Longrightarrow> closed g st
     \<Longrightarrow> closed g st' \<and> n \<in> fully_processed st' \<union> visited st"
  "rchildren ev g None gen p il cnt d cs st st' \<Longrightarrow> closed g st
     \<Longrightarrow> closed g st' \<and> snd ` set cs \<subseteq> fully_processed st' \<union> visited st"
proof (induction rule: rwalks_rchildren.inducts)
  case (r_done n st p il d)
  then show ?case by simp
next
  case (r_cycle n st p il d)
  then show ?case by simp
next
  case (r_limit n st d p il)
  then show ?case by (simp add: depth_reached_def)
next
  case (r_emit n st d cs p il st2 st')
  let ?st1 = "st\<lparr>visited := insert n (visited st)\<rparr>"
  from r_emit(6)[OF closed_more_visited[OF r_emit.prems]]
  have c2: "closed g st2" and sub: "set cs \<subseteq> fully_processed st2 \<union> insert n (visited st)"
    by (simp_all add: snd_enumerate)
  from rwalks_extends(2)[OF r_emit(5)] have v2: "visited st2 = insert n (visited st)"
    by (auto simp: extends_def)
  note e = emit_node_Inr[OF r_emit(7)]
  have v': "visited st' = visited st" using e(2) v2 r_emit(2) by auto
  have f': "fully_processed st' = insert n (fully_processed st2)" using e(3) .
  have "closed g st'"
    unfolding closed_def
  proof (intro ballI allI impI)
    fix u v assume u: "u \<in> fully_processed st'" and uv: "(u, v) \<in> edges g"
    show "v \<in> fully_processed st' \<union> visited st'"
    proof (cases "u = n")
      case True
      with uv successors_set[OF r_emit(4)] have "v \<in> set cs" by simp
      with sub show ?thesis using f' v' by auto
    next
      case False
      with u f' have "u \<in> fully_processed st2" by simp
      with c2 uv have "v \<in> fully_processed st2 \<union> visited st2" by (auto simp: closed_def)
      then show ?thesis using f' v' v2 by auto
    qed
  qed
  then show ?case using f' by simp
next
  case (c_nil p il cnt d st)
  then show ?case by simp
next
  case (c_cons c p il i cnt d st st1 rest st')
  from c_cons(2)[OF c_cons.prems] have c1: "closed g st1"
    and c: "c \<in> fully_processed st1 \<union> visited st" by simp_all
  from c_cons(4)[OF c1] have c': "closed g st'"
    and r: "snd ` set rest \<subseteq> fully_processed st' \<union> visited st1" by simp_all
  from rwalks_extends(1)[OF c_cons(1)] have v1: "visited st1 = visited st"
    by (auto simp: extends_def)
  from rwalks_extends(2)[OF c_cons(3)] have "fully_processed st1 \<subseteq> fully_processed st'"
    by (auto simp: extends_def)
  with c' c r v1 show ?case by auto
qed

lemma post_ordered_snoc:
  assumes "post_ordered E xs" "\<forall>v. (u, v) \<in> E \<longrightarrow> v \<in> set xs"
  shows "post_ordered E (xs @ [u])"
  unfolding post_ordered_def
proof (intro allI impI)
  fix a w b v
  assume eq: "xs @ [u] = a @ w # b" and wv: "(w, v) \<in> E"
  show "v \<in> set a"
  proof (cases b rule: rev_cases)
    case Nil
    with eq have "a = xs" "w = u" by auto
    with assms(2) wv show ?thesis by simp
  next
    case (snoc b' z)
    with eq have "xs = a @ w # b'" by (metis append.assoc append_Cons butlast_snoc)
    with assms(1) wv show ?thesis by (auto simp: post_ordered_def)
  qed
qed

lemma rwalks_in_order:
  "rwalks ev g None gen n p il d st st' \<Longrightarrow> acyclic (edges g) \<Longrightarrow> in_order g st
     \<Longrightarrow> \<forall>v \<in> visited st. (v, n) \<in> (edges g)\<^sup>+
     \<Longrightarrow> in_order g st' \<and> n \<in> fully_processed st'"
  "rchildren ev g None gen p il cnt d cs st st' \<Longrightarrow> acyclic (edges g) \<Longrightarrow> in_order g st
     \<Longrightarrow> \<forall>c \<in> snd ` set cs. \<forall>v \<in> visited st. (v, c) \<in> (edges g)\<^sup>+
     \<Longrightarrow> in_order g st' \<and> snd ` set cs \<subseteq> fully_processed st'"
proof (induction rule: rwalks_rchildren.inducts)
  case (r_done n st p il d)
  then show ?case by simp
next
  case (r_cycle n st p il d)
  then have "(n, n) \<in> (edges g)\<^sup>+" by simp
  with \<open>acyclic (edges g)\<close> show ?case by (simp add: acyclic_def)
next
  case (r_limit n st d p il)
  then show ?case by (simp add: depth_reached_def)
next
  case (r_emit n st d cs p il st2 st')
  let ?st1 = "st\<lparr>visited := insert n (visited st)\<rparr>"
  have o1: "in_order g ?st1" using r_emit.prems(2) by (simp add: in_order_def emitted_def)
  have pre: "\<forall>c \<in> snd ` set (enumerate 0 cs). \<forall>v \<in> visited ?st1. (v, c) \<in> (edges g)\<^sup>+"
  proof (intro ballI)
    fix c v assume "c \<in> snd ` set (enumerate 0 cs)" and v: "v \<in> visited ?st1"
    then have nc: "(n, c) \<in> edges g" using successors_set[OF r_emit(4)]
      by (simp add: snd_enumerate)
    show "(v, c) \<in> (edges g)\<^sup>+"
    proof (cases "v = n")
      case True
      with nc show ?thesis by auto
    next
      case False
      with v r_emit.prems(3) have "(v, n) \<in> (edges g)\<^sup>+" by simp
      with nc show ?thesis by (auto intro: trancl.trancl_into_trancl)
    qed
  qed
  from r_emit(6)[OF r_emit.prems(1) o1 pre]
  have o2: "in_order g st2" and sub: "set cs \<subseteq> fully_processed st2"
    by (simp_all add: snd_enumerate)
  note e = emit_node_Inr[OF r_emit(7)]
  have em: "emitted st' = emitted st2 @ [n]" using emit_node_emitted[OF r_emit(7)] .
  have "\<forall>v. (n, v) \<in> edges g \<longrightarrow> v \<in> set (emitted st2)"
    using sub o2 successors_set[OF r_emit(4)] by (auto simp: in_order_def)
  with o2 have "post_ordered (edges g) (emitted st2 @ [n])"
    by (auto simp: in_order_def intro: post_ordered_snoc)
  with em e(3) o2 show ?case by (simp add: in_order_def)
next
  case (c_nil p il cnt d st)
  then show ?case by simp
next
  case (c_cons c p il i cnt d st st1 rest st')
  from c_cons(2)[OF c_cons.prems(1,2)] c_cons.prems(3)
  have o1: "in_order g st1" and c: "c \<in> fully_processed st1" by simp_all
  from rwalks_extends(1)[OF c_cons(1)] have v1: "visited st1 = visited st"
    by (auto simp: extends_def)
  from c_cons(4)[OF c_cons.prems(1) o1] c_cons.prems(3) v1
  have o': "in_order g st'" and r: "snd ` set rest \<subseteq> fully_processed st'" by simp_all
  from rwalks_extends(2)[OF c_cons(3)] have "fully_processed st1 \<subseteq> fully_processed st'"
    by (auto simp: extends_def)
  with o' c r show ?case by auto
qed

lemma print_dag_recursive_step:
  assumes "n \<notin> fully_processed st" "n \<notin> visited st" "\<not> depth_reached md d"
    and "successors g n = Inr cs"
  shows "print_dag_recursive (Suc fuel) ev g md gen n p il d st =
     (case print_dag_recursive_children fuel ev g md gen p il (length cs) d (enumerate 0 cs)
             (st\<lparr>visited := insert n (visited st)\<rparr>) of
        None \<Rightarrow> None
      | Some (Inl e) \<Rightarrow> Some (Inl e)
      | Some (Inr st2) \<Rightarrow> Some (emit_node ev g gen n p il st2))"
  using assms by (simp add: Let_def)

lemma finishes_Some: "\<not> rendering_ok ev g gen \<Longrightarrow> finishes ev g gen (Some r)"
  by (cases r) (simp_all add: finishes_def)

lemma card_less_insert:
  assumes "n \<in> set xs" "n \<notin> V" "card (set xs - V) < Suc fuel"
  shows "card (set xs - insert n V) < fuel"
proof -
  have "n \<in> set xs - V" using assms by simp
  then have "Suc (card ((set xs - V) - {n})) = card (set xs - V)"
    by (intro card_Suc_Diff1) auto
  moreover have "(set xs - V) - {n} = set xs - insert n V" by auto
  ultimately show ?thesis using assms(3) by simp
qed

lemma reverse_finishes:
  "wf_graph g \<Longrightarrow> n \<in> set (nodes g) \<Longrightarrow> card (set (nodes g) - visited st) < fuel
     \<Longrightarrow> finishes ev g gen (print_dag_recursive fuel ev g md gen n p il d st)"
  "wf_graph g \<Longrightarrow> snd ` set cs \<subseteq> set (nodes g) \<Longrightarrow> card (set (nodes g) - visited st) < fuel
     \<Longrightarrow> finishes ev g gen (print_dag_recursive_children fuel ev g md gen p il cnt d cs st)"
proof (induction fuel ev g md gen n p il d st and fuel ev g md gen p il cnt d cs st
       rule: print_dag_recursive_print_dag_recursive_children.induct)
  case (1 ev g max_depth to_generate_code current_node_id prefix is_last depth st)
  then show ?case by simp
next
  case (2 fuel ev g md gen n p il d st)
  show ?case
  proof (cases "n \<in> fully_processed st \<or> n \<in> visited st \<or> depth_reached md d")
    case True
    then show ?thesis by (auto simp: finishes_def set_remove_def Let_def)
  next
    case False
    then have nf: "n \<notin> fully_processed st" and nv: "n \<notin> visited st"
      and nd: "\<not> depth_reached md d" by simp_all
    from successors_ok[OF "2.prems"(2)] obtain cs where cs: "successors g n = Inr cs" by blast
    let ?st1 = "st\<lparr>visited := insert n (visited st)\<rparr>"
    let ?r = "print_dag_recursive_children fuel ev g md gen p il (length cs) d (enumerate 0 cs) ?st1"
    have sub: "snd ` set (enumerate 0 cs) \<subseteq> set (nodes g)"
      using successors_nodes[OF "2.prems"(1) cs] by (simp add: snd_enumerate)
    have card: "card (set (nodes g) - visited ?st1) < fuel"
      using card_less_insert[OF "2.prems"(2) nv "2.prems"(3)] by simp
    have fin: "finishes ev g gen ?r"
      using "2.IH"[OF nf nv refl nd cs "2.prems"(1) sub card] .
    note step = print_dag_recursive_step[OF nf nv nd cs, of fuel ev gen p il]
    show ?thesis
    proof (cases ?r)
      case None
      with fin show ?thesis by (simp add: finishes_def)
    next
      case (Some x)
      show ?thesis
      proof (cases x)
        case (Inl e)
        with Some fin step show ?thesis by (simp add: finishes_def)
      next
        case (Inr st2)
        show ?thesis
        proof (cases "rendering_ok ev g gen")
          case True
          from Some Inr have "rchildren ev g md gen p il (length cs) d (enumerate 0 cs) ?st1 st2"
            by (intro rwalks_sound(2)) simp
          from rwalks_extends(2)[OF this] have "n \<in> visited st2"
            by (auto simp: extends_def)
          from emit_node_succeeds[OF True "2.prems"(2) this]
          obtain st' where "emit_node ev g gen n p il st2 = Inr st'" by blast
          with Some Inr step show ?thesis by (simp add: finishes_def)
        next
          case False
          with Some Inr step show ?thesis by (simp add: finishes_Some)
        qed
      qed
    qed
  qed
next
  case (3 fuel ev g max_depth to_generate_code prefix is_last child_count depth st)
  then show ?case by (simp add: finishes_def)
next
  case (4 fuel ev g md gen p il cnt d i c rest st)
  let ?r = "print_dag_recursive fuel ev g md gen c (p @ indent_of il)
              (int i = int cnt - 1) (d + 1) st"
  from "4.prems" have c: "c \<in> set (nodes g)" and rest: "snd ` set rest \<subseteq> set (nodes g)"
    by auto
  have fin: "finishes ev g gen ?r"
    using "4.IH"(1)[OF refl refl "4.prems"(1) c "4.prems"(3)] .
  show ?case
  proof (cases ?r)
    case None
    with fin show ?thesis by (simp add: finishes_def)
  next
    case (Some x)
    show ?thesis
    proof (cases x)
      case (Inl e)
      with Some fin show ?thesis by (simp add: finishes_def Let_def)
    next
      case (Inr st1)
      from Some Inr have "rwalks ev g md gen c (p @ indent_of il) (int i = int cnt - 1) (d + 1) st st1"
        by (intro rwalks_sound(1)) simp
      from rwalks_extends(1)[OF this] have "visited st1 = visited st"
        by (auto simp: extends_def)
      with "4.prems"(3) have "card (set (nodes g) - visited st1) < fuel" by simp
      from "4.IH"(2)[OF refl refl Some Inr "4.prems"(1) rest this]
      show ?thesis using Some Inr by (simp add: Let_def)
    qed
  qed
qed


lemma reset_visited: "visited (st::rwalk) = {} \<Longrightarrow> st\<lparr>visited := {}\<rparr> = st"
  by simp

lemma source_loop_Cons:
  assumes "source_loop fuel ev g md gen cnt ((i, s) # rest) st = Some (Inr st')"
    and "visited st = {}"
  obtains st1 where
    "rwalks ev g md gen s '''' (int i = int cnt - 1) 0 st st1"
    "source_loop fuel ev g md gen cnt rest st1 = Some (Inr st')"
    "visited st1 = {}"
proof -
  from assms obtain st1 where
    a: "print_dag_recursive fuel ev g md gen s '''' (int i = int cnt - 1) 0 st = Some (Inr st1)"
    and b: "source_loop fuel ev g md gen cnt rest st1 = Some (Inr st')"
    by (auto simp: Let_def reset_visited split: option.splits sum.splits)
  from rwalks_sound(1)[OF a] have w: "rwalks ev g md gen s '''' (int i = int cnt - 1) 0 st st1" .
  from rwalks_extends(1)[OF w] assms(2) have "visited st1 = {}" by (auto simp: extends_def)
  with w b that show thesis by blast
qed

lemma source_loop_extends:
  "source_loop fuel ev g md gen cnt srcs st = Some (Inr st') \<Longrightarrow> visited st = {}
     \<Longrightarrow> \<exists>ns. extends ev g gen st st' ns \<and> set ns \<subseteq> (edges g)\<^sup>* `` (snd ` set srcs)"
proof (induction srcs arbitrary: st)
  case Nil
  then show ?case using extends_refl by fastforce
next
  case (Cons x rest)
  obtain i s where x: "x = (i, s)" by (cases x)
  have p: "source_loop fuel ev g md gen cnt ((i, s) # rest) st = Some (Inr st')"
    using Cons.prems(1) unfolding x .
  from p Cons.prems(2) obtain st1 where
    w: "rwalks ev g md gen s '''' (int i = int cnt - 1) 0 st st1"
    and l: "source_loop fuel ev g md gen cnt rest st1 = Some (Inr st')"
    and v: "visited st1 = {}"
    by (rule source_loop_Cons)
  from rwalks_extends(1)[OF w] obtain a where
    a: "extends ev g gen st st1 a" "set a \<subseteq> (edges g)\<^sup>* `` {s}" by blast
  from Cons.IH[OF l v] obtain b where
    b: "extends ev g gen st1 st' b" "set b \<subseteq> (edges g)\<^sup>* `` (snd ` set rest)" by blast
  have "extends ev g gen st st' (a @ b)" using extends_trans[OF a(1) b(1)] .
  moreover have "set (a @ b) \<subseteq> (edges g)\<^sup>* `` (snd ` set (x # rest))"
    using a(2) b(2) x by (simp add: Image_def) blast
  ultimately show ?case by blast
qed

lemma source_loop_closed:
  "source_loop fuel ev g None gen cnt srcs st = Some (Inr st') \<Longrightarrow> visited st = {}
     \<Longrightarrow> closed g st \<Longrightarrow> closed g st' \<and> snd ` set srcs \<subseteq> fully_processed st'"
proof (induction srcs arbitrary: st)
  case Nil
  then show ?case by simp
next
  case (Cons x rest)
  obtain i s where x: "x = (i, s)" by (cases x)
  have p: "source_loop fuel ev g None gen cnt ((i, s) # rest) st = Some (Inr st')"
    using Cons.prems(1) unfolding x .
  from p Cons.prems(2) obtain st1 where
    w: "rwalks ev g None gen s '''' (int i = int cnt - 1) 0 st st1"
    and l: "source_loop fuel ev g None gen cnt rest st1 = Some (Inr st')"
    and v: "visited st1 = {}"
    by (rule source_loop_Cons)
  from rwalks_closed(1)[OF w Cons.prems(3)] Cons.prems(2)
  have c1: "closed g st1" and s: "s \<in> fully_processed st1" by simp_all
  from Cons.IH[OF l v c1] have c': "closed g st'" and r: "snd ` set rest \<subseteq> fully_processed st'"
    by simp_all
  from source_loop_extends[OF l v] have "fully_processed st1 \<subseteq> fully_processed st'"
    by (auto simp: extends_def)
  with c' r s x show ?case by auto
qed

lemma source_loop_in_order:
  "source_loop fuel ev g None gen cnt srcs st = Some (Inr st') \<Longrightarrow> visited st = {}
     \<Longrightarrow> acyclic (edges g) \<Longrightarrow> in_order g st \<Longrightarrow> in_order g st'"
proof (induction srcs arbitrary: st)
  case Nil
  then show ?case by simp
next
  case (Cons x rest)
  obtain i s where x: "x = (i, s)" by (cases x)
  have p: "source_loop fuel ev g None gen cnt ((i, s) # rest) st = Some (Inr st')"
    using Cons.prems(1) unfolding x .
  from p Cons.prems(2) obtain st1 where
    w: "rwalks ev g None gen s '''' (int i = int cnt - 1) 0 st st1"
    and l: "source_loop fuel ev g None gen cnt rest st1 = Some (Inr st')"
    and v: "visited st1 = {}"
    by (rule source_loop_Cons)
  from rwalks_in_order(1)[OF w Cons.prems(3,4)] Cons.prems(2)
  have "in_order g st1" by simp
  from Cons.IH[OF l v Cons.prems(3) this] show ?case .
qed

lemma source_loop_finishes:
  "wf_graph g \<Longrightarrow> snd ` set srcs \<subseteq> set (nodes g) \<Longrightarrow> length (nodes g) < fuel
     \<Longrightarrow> finishes ev g gen (source_loop fuel ev g md gen cnt srcs st)"
proof (induction srcs arbitrary: st)
  case Nil
  then show ?case by (simp add: finishes_def)
next
  case (Cons x rest)
  obtain i s where x: "x = (i, s)" by (cases x)
  let ?r = "print_dag_recursive fuel ev g md gen s '''' (int i = int cnt - 1) 0
              (st\<lparr>visited := {}\<rparr>)"
  have "card (set (nodes g)) \<le> length (nodes g)" by (rule card_length)
  with Cons.prems(3) have "card (set (nodes g) - visited (st\<lparr>visited := {}\<rparr>)) < fuel" by simp
  moreover from Cons.prems(2) x have "s \<in> set (nodes g)" by simp
  ultimately have fin: "finishes ev g gen ?r"
    using reverse_finishes(1)[OF Cons.prems(1)] by blast
  from Cons.prems(2) have rest: "snd ` set rest \<subseteq> set (nodes g)" by simp
  show ?case
  proof (cases ?r)
    case None
    with fin show ?thesis by (simp add: finishes_def)
  next
    case (Some y)
    show ?thesis
    proof (cases y)
      case (Inl e)
      with Some fin x show ?thesis by (simp add: finishes_def Let_def)
    next
      case (Inr st1)
      with Some x Cons.IH[OF Cons.prems(1) rest Cons.prems(3), of st1]
      show ?thesis by (simp add: Let_def)
    qed
  qed
qed

lemma emitted_initial: "emitted initial_rwalk = []"
  by (simp add: emitted_def initial_rwalk_def)

lemma source_nodes_subset: "set (source_nodes g) \<subseteq> set (nodes g)"
  by (auto simp: source_nodes_def)

text \<open>What a run is made of: the loop over the sources, then the write.\<close>

lemma reverse_run_Inr:
  assumes "print_dag_in_reverse fuel ev g md gen = Some (Inr st)"
  obtains st0 where
    "source_loop fuel ev g md gen (length (source_nodes g)) (enumerate 0 (source_nodes g))
       initial_rwalk = Some (Inr st0)"
    "emitted st = emitted st0" "fully_processed st = fully_processed st0"
    "llm_calls st = llm_calls st0" "generated_code st = generated_code st0"
    "files st = (if gen then files st0 @ [(''generated_code.txt'', generated_code st0)]
                 else files st0)"
  using assms
  by (auto simp: print_dag_in_reverse_def Let_def emitted_def emitted_of_append
           split: option.splits sum.splits if_splits)

lemma reverse_run_succeeds:
  assumes "wf_graph g" "rendering_ok ev g gen" "length (nodes g) < fuel"
  shows "\<exists>st. print_dag_in_reverse fuel ev g md gen = Some (Inr st)"
proof -
  have "snd ` set (enumerate 0 (source_nodes g)) \<subseteq> set (nodes g)"
    using source_nodes_subset by (simp add: snd_enumerate)
  then have "finishes ev g gen (source_loop fuel ev g md gen (length (source_nodes g))
      (enumerate 0 (source_nodes g)) initial_rwalk)"
    using assms(1,3) by (intro source_loop_finishes)
  with assms(2)
  obtain st0 where "source_loop fuel ev g md gen (length (source_nodes g))
      (enumerate 0 (source_nodes g)) initial_rwalk = Some (Inr st0)"
    by (auto simp: finishes_def split: option.splits sum.splits)
  then show ?thesis by (simp add: print_dag_in_reverse_def Let_def)
qed

lemma reverse_run_terminates:
  assumes "wf_graph g" "length (nodes g) < fuel"
  shows "print_dag_in_reverse fuel ev g md gen \<noteq> None"
proof -
  have "snd ` set (enumerate 0 (source_nodes g)) \<subseteq> set (nodes g)"
    using source_nodes_subset by (simp add: snd_enumerate)
  then have "finishes ev g gen (source_loop fuel ev g md gen (length (source_nodes g))
      (enumerate 0 (source_nodes g)) initial_rwalk)"
    using assms by (intro source_loop_finishes)
  then show ?thesis
    by (auto simp: finishes_def print_dag_in_reverse_def Let_def split: option.splits sum.splits)
qed

lemma reverse_run_extends:
  assumes "print_dag_in_reverse fuel ev g md gen = Some (Inr st)"
  shows "distinct (emitted st)"
    and "set (emitted st) \<subseteq> (edges g)\<^sup>* `` set (source_nodes g)"
    and "fully_processed st = set (emitted st)"
    and "gen \<Longrightarrow> llm_calls st = emitted st \<and>
           (\<exists>codes. map (generate_code ev g) (emitted st) = map Inr codes \<and>
              generated_code st = concat (map (\<lambda>c. c @ nl @ nl) codes)) \<and>
           files st = [(''generated_code.txt'', generated_code st)]"
    and "\<not> gen \<Longrightarrow> files st = [] \<and> generated_code st = '''' \<and> llm_calls st = []"
proof -
  from assms obtain st0 where
    l: "source_loop fuel ev g md gen (length (source_nodes g)) (enumerate 0 (source_nodes g))
          initial_rwalk = Some (Inr st0)"
    and e: "emitted st = emitted st0" "fully_processed st = fully_processed st0"
      "llm_calls st = llm_calls st0" "generated_code st = generated_code st0"
      "files st = (if gen then files st0 @ [(''generated_code.txt'', generated_code st0)]
                   else files st0)"
    by (rule reverse_run_Inr)
  have "visited initial_rwalk = {}" by (simp add: initial_rwalk_def)
  from source_loop_extends[OF l this] obtain ns where
    x: "extends ev g gen initial_rwalk st0 ns"
    and r: "set ns \<subseteq> (edges g)\<^sup>* `` set (source_nodes g)"
    by (auto simp: snd_enumerate)
  from x have ns: "emitted st0 = ns" by (simp add: extends_def emitted_initial)
  from x show "distinct (emitted st)" using e(1) ns by (simp add: extends_def)
  from r show "set (emitted st) \<subseteq> (edges g)\<^sup>* `` set (source_nodes g)" using e(1) ns by simp
  from x show "fully_processed st = set (emitted st)"
    using e(1,2) ns by (simp add: extends_def initial_rwalk_def)
  { assume gen
    with x e ns show "llm_calls st = emitted st \<and>
           (\<exists>codes. map (generate_code ev g) (emitted st) = map Inr codes \<and>
              generated_code st = concat (map (\<lambda>c. c @ nl @ nl) codes)) \<and>
           files st = [(''generated_code.txt'', generated_code st)]"
      by (auto simp: extends_def initial_rwalk_def) }
  { assume "\<not> gen"
    with x e ns show "files st = [] \<and> generated_code st = '''' \<and> llm_calls st = []"
      by (auto simp: extends_def initial_rwalk_def) }
qed

lemma reverse_run_closed:
  assumes "print_dag_in_reverse fuel ev g None gen = Some (Inr st)"
  shows "(edges g)\<^sup>* `` set (source_nodes g) \<subseteq> set (emitted st)"
proof -
  from assms obtain st0 where
    l: "source_loop fuel ev g None gen (length (source_nodes g)) (enumerate 0 (source_nodes g))
          initial_rwalk = Some (Inr st0)"
    and e: "emitted st = emitted st0" "fully_processed st = fully_processed st0"
    by (rule reverse_run_Inr)
  have v: "visited initial_rwalk = {}" by (simp add: initial_rwalk_def)
  have c: "closed g initial_rwalk" by (simp add: closed_def initial_rwalk_def)
  from source_loop_closed[OF l v c]
  have c0: "closed g st0" and s: "set (source_nodes g) \<subseteq> fully_processed st0"
    by (simp_all add: snd_enumerate)
  from source_loop_extends[OF l v] have v0: "visited st0 = {}"
    by (auto simp: extends_def initial_rwalk_def)
  have "v \<in> fully_processed st0" if "(u, v) \<in> (edges g)\<^sup>*" "u \<in> fully_processed st0" for u v
    using that
  proof (induction rule: rtrancl_induct)
    case base
    then show ?case .
  next
    case (step y z)
    with c0 v0 show ?case by (auto simp: closed_def)
  qed
  with s have "(edges g)\<^sup>* `` set (source_nodes g) \<subseteq> fully_processed st0" by auto
  with reverse_run_extends(3)[OF assms] e show ?thesis by simp
qed

lemma post_ordered_trancl:
  assumes "post_ordered E xs" "xs = a @ u # b" "(u, v) \<in> E\<^sup>+"
  shows "v \<in> set a"
  using assms(3)
proof (induction rule: trancl_induct)
  case (base y)
  with assms(1,2) show ?case by (auto simp: post_ordered_def)
next
  case (step y z)
  from step.IH obtain a1 a2 where a: "a = a1 @ y # a2" by (auto simp: in_set_conv_decomp)
  with assms(2) have "xs = a1 @ y # (a2 @ u # b)" by simp
  with assms(1) step.hyps(2) have "z \<in> set a1" unfolding post_ordered_def by blast
  with a show ?case by simp
qed

lemma reverse_run_in_order:
  assumes "print_dag_in_reverse fuel ev g None gen = Some (Inr st)" "acyclic (edges g)"
  shows "post_ordered (edges g) (emitted st)"
proof -
  from assms(1) obtain st0 where
    l: "source_loop fuel ev g None gen (length (source_nodes g)) (enumerate 0 (source_nodes g))
          initial_rwalk = Some (Inr st0)"
    and e: "emitted st = emitted st0"
    by (rule reverse_run_Inr)
  have v: "visited initial_rwalk = {}" by (simp add: initial_rwalk_def)
  have "in_order g initial_rwalk"
    by (simp add: in_order_def initial_rwalk_def emitted_def post_ordered_def)
  from source_loop_in_order[OF l v assms(2) this] e show ?thesis by (simp add: in_order_def)
qed


section \<open>The sample graphs\<close>

lemma abc_wf: "wf_graph abc_graph"
  by (simp add: wf_graph_def abc_graph_def nodes_def)

lemma abc_nodes: "nodes abc_graph = [''A'', ''B'', ''C'']"
  by (simp add: abc_graph_def nodes_def)

lemma abc_rendering: "rendering_ok ev abc_graph False"
  by (simp add: rendering_ok_def abc_graph_def nodes_def get_node_label_def node_attrs_of_def
        request_def dict_get_def)

lemma abc_sources: "source_nodes abc_graph = [''A'']"
  by (simp add: source_nodes_def abc_graph_def nodes_def in_degree_def)

lemma abc_successors:
  "successors abc_graph ''A'' = Inr [''B'', ''C'']"
  "successors abc_graph ''B'' = Inr [''C'']"
  "successors abc_graph ''C'' = Inr []"
  by (simp_all add: successors_def abc_graph_def nodes_def)

lemma abc_acyclic: "acyclic (edges abc_graph)"
proof (rule acyclicI_order)
  fix a b assume "(a, b) \<in> edges abc_graph"
  then show "(if b = ''A'' then 2 else if b = ''B'' then 1 else (0::nat))
           < (if a = ''A'' then 2 else if a = ''B'' then 1 else 0)"
    by (auto simp: edges_def abc_graph_def)
qed

lemma rendering_ok_label:
  assumes "rendering_ok ev g gen" "n \<in> set (nodes g)"
  shows "\<exists>l. get_node_label ev g n = Inr l"
proof -
  from assms have "\<not> isl (get_node_label ev g n)" by (auto simp: rendering_ok_def list_all_iff)
  then show ?thesis by (cases "get_node_label ev g n") auto
qed

lemma emit_node_plain:
  "get_node_label ev g n = Inr l \<Longrightarrow> n \<in> visited st \<Longrightarrow>
   emit_node ev g False n p il st =
     Inr (st\<lparr>out := out st @ [(Labelled n, p @ connector_of il @ l)],
             fully_processed := insert n (fully_processed st),
             visited := visited st - {n}\<rparr>)"
  by (simp add: emit_node_def Let_def set_remove_def)

lemma abc_order: "map_option (map_sum id emitted) (print_dag_in_reverse 4 ev abc_graph None False)
           = Some (Inr [''C'', ''B'', ''A''])"
proof -
  obtain la lb lc where
    l: "get_node_label ev abc_graph ''A'' = Inr la"
       "get_node_label ev abc_graph ''B'' = Inr lb"
       "get_node_label ev abc_graph ''C'' = Inr lc"
    using rendering_ok_label[OF abc_rendering[of ev], of "''A''"]
      rendering_ok_label[OF abc_rendering[of ev], of "''B''"]
      rendering_ok_label[OF abc_rendering[of ev], of "''C''"]
    by (auto simp: abc_nodes)
  show ?thesis
    by (simp add: print_dag_in_reverse_def abc_sources eval_nat_numeral initial_rwalk_def
        abc_successors depth_reached_def emit_node_plain l emitted_def Let_def)
qed


lemma abc_rendering_gen: "rendering_ok sample_env abc_graph True"
  by (simp add: rendering_ok_def abc_graph_def nodes_def get_node_label_def node_attrs_of_def
        request_def dict_get_def generate_code_def sample_env_def)

lemma ecg_wf: "wf_graph entered_cycle_graph"
  by (simp add: wf_graph_def entered_cycle_graph_def nodes_def)

lemma ecg_nodes: "nodes entered_cycle_graph = [''S'', ''A'', ''B'', ''C'']"
  by (simp add: entered_cycle_graph_def nodes_def)

lemma ecg_rendering: "rendering_ok ev entered_cycle_graph False"
  by (simp add: rendering_ok_def entered_cycle_graph_def nodes_def get_node_label_def
        node_attrs_of_def request_def dict_get_def)

lemma ecg_sources: "source_nodes entered_cycle_graph = [''S'']"
  by (simp add: source_nodes_def entered_cycle_graph_def nodes_def in_degree_def)

lemma ecg_successors:
  "successors entered_cycle_graph ''S'' = Inr [''A'']"
  "successors entered_cycle_graph ''A'' = Inr [''B'']"
  "successors entered_cycle_graph ''B'' = Inr [''C'']"
  "successors entered_cycle_graph ''C'' = Inr [''A'']"
  by (simp_all add: successors_def entered_cycle_graph_def nodes_def)

lemma ecg_order:
  "map_option (map_sum id emitted) (print_dag_in_reverse 5 ev entered_cycle_graph None False)
     = Some (Inr [''C'', ''B'', ''A'', ''S''])"
proof -
  obtain ls la lb lc where
    l: "get_node_label ev entered_cycle_graph ''S'' = Inr ls"
       "get_node_label ev entered_cycle_graph ''A'' = Inr la"
       "get_node_label ev entered_cycle_graph ''B'' = Inr lb"
       "get_node_label ev entered_cycle_graph ''C'' = Inr lc"
    using rendering_ok_label[OF ecg_rendering[of ev], of "''S''"]
      rendering_ok_label[OF ecg_rendering[of ev], of "''A''"]
      rendering_ok_label[OF ecg_rendering[of ev], of "''B''"]
      rendering_ok_label[OF ecg_rendering[of ev], of "''C''"]
    by (auto simp: ecg_nodes)
  show ?thesis
    by (simp add: print_dag_in_reverse_def ecg_sources eval_nat_numeral initial_rwalk_def
        ecg_successors depth_reached_def emit_node_plain l emitted_def Let_def)
qed

lemma cycle_sources: "source_nodes cycle_graph = []"
  by (simp add: source_nodes_def cycle_graph_def nodes_def in_degree_def)

lemma cycle_in_degrees: "list_all (\<lambda>n. 0 < in_degree cycle_graph n) (nodes cycle_graph)"
  by (simp add: cycle_graph_def nodes_def in_degree_def)

lemma no_sources: "list_all (\<lambda>n. 0 < in_degree g n) (nodes g) \<Longrightarrow> source_nodes g = []"
  by (auto simp: source_nodes_def list_all_iff filter_empty_conv)


section \<open>Lemmas on the forward traversal\<close>

lemma fwalks_sound:
  "print_dag fuel ev g n p il d md st = Some (Inr st') \<Longrightarrow> fwalks ev g md n p il d st st'"
  "print_dag_children fuel ev g np cnt d md cs st = Some (Inr st')
     \<Longrightarrow> fchildren ev g md np cnt d cs st st'"
proof (induction fuel ev g n p il d md st and fuel ev g np cnt d md cs st
       arbitrary: st' and st' rule: print_dag_print_dag_children.induct)
  case (1 ev g current_node_id prefix is_last depth max_depth st)
  then show ?case by simp
next
  case (2 fuel ev g n p il d md st)
  from "2.prems" obtain l where l: "forward_label ev g n (p @ indent_of il) = Inr l"
    by (auto simp: Let_def split: sum.splits)
  let ?st2 = "st\<lparr>out := out st @ [(Labelled n, p @ connector_of il @ l)],
                  visited := insert n (visited st)\<rparr>"
  show ?case
  proof (cases "depth_reached md d")
    case True
    with "2.prems" l have "st' = ?st2" by (simp add: Let_def)
    with l True show ?thesis by (auto intro: f_limit)
  next
    case False
    with "2.prems" l obtain cs where cs: "successors g n = Inr cs"
      and c: "print_dag_children fuel ev g (p @ indent_of il) (length cs) d md
                (enumerate 0 cs) ?st2 = Some (Inr st')"
      by (auto simp: Let_def split: sum.splits)
    have "fchildren ev g md (p @ indent_of il) (length cs) d (enumerate 0 cs) ?st2 st'"
      using "2.IH"[OF refl refl l refl refl False cs] c by simp
    with l False cs show ?thesis by (rule f_expand)
  qed
next
  case (3 fuel ev g new_prefix child_count depth max_depth st)
  then show ?case by (auto intro: fc_nil)
next
  case (4 fuel ev g np cnt d md i c rest st)
  show ?case
  proof (cases "c \<in> visited st")
    case True
    let ?st1 = "st\<lparr>out := out st @ [(AlreadyVisited c,
                  np @ connector_of (int i = int cnt - 1) @ ''(Already visited) [node_id: ''
                    @ c @ '']'')]\<rparr>"
    from "4.prems" True
    have "print_dag_children fuel ev g np cnt d md rest ?st1 = Some (Inr st')"
      by (simp add: Let_def)
    from "4.IH"(1)[OF refl True refl this] True show ?thesis by (auto intro: fc_seen)
  next
    case False
    with "4.prems" obtain st1 where
      a: "print_dag fuel ev g c np (int i = int cnt - 1) (d + 1) md st = Some (Inr st1)"
      and b: "print_dag_children fuel ev g np cnt d md rest st1 = Some (Inr st')"
      by (auto simp: Let_def split: option.splits sum.splits)
    from "4.IH"(2)[OF refl False a] have w: "fwalks ev g md c np (int i = int cnt - 1) (d + 1) st st1" .
    from "4.IH"(3)[OF refl False a refl b]
    have "fchildren ev g md np cnt d rest st1 st'" .
    with False w show ?thesis by (rule fc_new)
  qed
qed

lemma trace_ok_append:
  "trace_ok V (a @ b) \<longleftrightarrow> trace_ok V a \<and> trace_ok (V \<union> set (emitted_of a)) b"
  by (induction V a rule: trace_ok.induct) auto



lemma fwalks_trace:
  "fwalks ev g md n p il d st st'
     \<Longrightarrow> \<exists>l ext. out st' = out st @ (Labelled n, l) # ext \<and>
           trace_ok (insert n (visited st)) ext \<and>
           visited st' = insert n (visited st) \<union> set (emitted_of ext)"
  "fchildren ev g md np cnt d cs st st'
     \<Longrightarrow> \<exists>ext. out st' = out st @ ext \<and> trace_ok (visited st) ext \<and>
           visited st' = visited st \<union> set (emitted_of ext)"
proof (induction rule: fwalks_fchildren.inducts)
  case (f_limit n p il l d st)
  show ?case by (intro exI[of _ "p @ connector_of il @ l"] exI[of _ "[]"]) simp
next
  case (f_expand n p il l d cs st st')
  then obtain ext where "out st' = (out st @ [(Labelled n, p @ connector_of il @ l)]) @ ext"
    "trace_ok (insert n (visited st)) ext"
    "visited st' = insert n (visited st) \<union> set (emitted_of ext)"
    by auto
  then show ?case by (intro exI[of _ "p @ connector_of il @ l"] exI[of _ ext]) simp
next
  case (fc_nil np cnt d st)
  show ?case by (intro exI[of _ "[]"]) simp
next
  case (fc_seen c st np cnt d rest i st')
  let ?line = "(AlreadyVisited c, np @ connector_of (int i = int cnt - 1)
                 @ ''(Already visited) [node_id: '' @ c @ '']'')"
  from fc_seen obtain ext where e: "out st' = (out st @ [?line]) @ ext"
    "trace_ok (visited st) ext" "visited st' = visited st \<union> set (emitted_of ext)"
    by auto
  have "trace_ok (visited st) (?line # ext)"
    using e(2) fc_seen(1) by auto
  with e show ?case by (intro exI[of _ "?line # ext"]) simp
next
  case (fc_new c st np i cnt d st1 rest st')
  then obtain l e1 e2 where
    a: "out st1 = out st @ (Labelled c, l) # e1" "trace_ok (insert c (visited st)) e1"
       "visited st1 = insert c (visited st) \<union> set (emitted_of e1)"
    and b: "out st' = out st1 @ e2" "trace_ok (visited st1) e2"
       "visited st' = visited st1 \<union> set (emitted_of e2)"
    by blast
  let ?ext = "(Labelled c, l) # e1 @ e2"
  have "trace_ok (visited st) ?ext"
    using a(2,3) b(2) fc_new(1) by (simp add: trace_ok_append)
  moreover have "out st' = out st @ ?ext" using a(1) b(1) by simp
  moreover have "visited st' = visited st \<union> set (emitted_of ?ext)"
    using a(3) b(3) by (auto simp: emitted_of_append)
  ultimately show ?case by blast
qed

lemma fwalks_mono:
  "fwalks ev g md n p il d st st' \<Longrightarrow> insert n (visited st) \<subseteq> visited st'"
  "fchildren ev g md np cnt d cs st st' \<Longrightarrow> visited st \<subseteq> visited st'"
  by (auto dest!: fwalks_trace)



lemma forward_label_isl: "isl (forward_label ev g n p) = isl (forward_label ev g n q)"
  by (simp add: forward_label_def Let_def split: sum.splits)

lemma forward_ok_label:
  assumes "forward_ok ev g" "n \<in> set (nodes g)"
  shows "\<exists>l. forward_label ev g n p = Inr l"
proof -
  from assms have "\<not> isl (forward_label ev g n [])" by (auto simp: forward_ok_def list_all_iff)
  with forward_label_isl[of ev g n p "[]"] have "\<not> isl (forward_label ev g n p)" by simp
  then show ?thesis by (cases "forward_label ev g n p") auto
qed

lemma card_diff_insert_less:
  assumes "c \<in> set xs" "c \<notin> V" "card (set xs - V) \<le> fuel"
  shows "card (set xs - insert c V) < fuel"
proof -
  have "c \<in> set xs - V" using assms by simp
  then have "Suc (card ((set xs - V) - {c})) = card (set xs - V)"
    by (intro card_Suc_Diff1) auto
  moreover have "(set xs - V) - {c} = set xs - insert c V" by auto
  ultimately show ?thesis using assms(3) by simp
qed

lemma forward_finishes:
  "wf_graph g \<Longrightarrow> n \<in> set (nodes g) \<Longrightarrow> card (set (nodes g) - insert n (visited st)) < fuel
     \<Longrightarrow> ffinishes ev g (print_dag fuel ev g n p il d md st)"
  "wf_graph g \<Longrightarrow> snd ` set cs \<subseteq> set (nodes g) \<Longrightarrow> card (set (nodes g) - visited st) \<le> fuel
     \<Longrightarrow> ffinishes ev g (print_dag_children fuel ev g np cnt d md cs st)"
proof (induction fuel ev g n p il d md st and fuel ev g np cnt d md cs st
       rule: print_dag_print_dag_children.induct)
  case (1 ev g current_node_id prefix is_last depth max_depth st)
  then show ?case by simp
next
  case (2 fuel ev g n p il d md st)
  show ?case
  proof (cases "forward_label ev g n (p @ indent_of il)")
    case (Inl e)
    then have "\<not> forward_ok ev g"
      using forward_ok_label[OF _ "2.prems"(2), of ev "p @ indent_of il"] by auto
    with Inl show ?thesis by (simp add: ffinishes_def Let_def)
  next
    case (Inr l)
    show ?thesis
    proof (cases "depth_reached md d")
      case True
      with Inr show ?thesis by (simp add: ffinishes_def Let_def)
    next
      case False
      from successors_ok[OF "2.prems"(2)] obtain cs where cs: "successors g n = Inr cs" by blast
      have sub: "snd ` set (enumerate 0 cs) \<subseteq> set (nodes g)"
        using successors_nodes[OF "2.prems"(1) cs] by (simp add: snd_enumerate)
      from "2.prems"(3) have card: "card (set (nodes g) - insert n (visited st)) \<le> fuel" by simp
      from "2.IH"[OF refl refl Inr refl refl False cs "2.prems"(1) sub] card Inr False cs
      show ?thesis by (simp add: Let_def)
    qed
  qed
next
  case (3 fuel ev g new_prefix child_count depth max_depth st)
  then show ?case by (simp add: ffinishes_def)
next
  case (4 fuel ev g np cnt d md i c rest st)
  from "4.prems" have c: "c \<in> set (nodes g)" and rest: "snd ` set rest \<subseteq> set (nodes g)"
    by auto
  show ?case
  proof (cases "c \<in> visited st")
    case True
    from "4.IH"(1)[OF refl True refl "4.prems"(1) rest] "4.prems"(3) True
    show ?thesis by (simp add: Let_def)
  next
    case False
    let ?r = "print_dag fuel ev g c np (int i = int cnt - 1) (d + 1) md st"
    have "card (set (nodes g) - insert c (visited st)) < fuel"
      using card_diff_insert_less[OF c False "4.prems"(3)] .
    from "4.IH"(2)[OF refl False "4.prems"(1) c this] have fin: "ffinishes ev g ?r" .
    show ?thesis
    proof (cases ?r)
      case None
      with fin show ?thesis by (simp add: ffinishes_def)
    next
      case (Some x)
      show ?thesis
      proof (cases x)
        case (Inl e)
        with Some fin False show ?thesis by (simp add: ffinishes_def Let_def)
      next
        case (Inr st1)
        with Some have "fwalks ev g md c np (int i = int cnt - 1) (d + 1) st st1"
          by (intro fwalks_sound(1)) simp
        from fwalks_mono(1)[OF this] have "visited st \<subseteq> visited st1" by simp
        then have "card (set (nodes g) - visited st1) \<le> card (set (nodes g) - visited st)"
          by (intro card_mono) auto
        with "4.prems"(3) have "card (set (nodes g) - visited st1) \<le> fuel" by simp
        from "4.IH"(3)[OF refl False Some Inr "4.prems"(1) rest this] Some Inr False
        show ?thesis by (simp add: Let_def)
      qed
    qed
  qed
qed

lemma forward_run_finishes:
  assumes "wf_graph g" "n \<in> set (nodes g)" "length (nodes g) < fuel"
  shows "ffinishes ev g (print_dag fuel ev g n p il d md st)"
proof -
  have "card (set (nodes g) - insert n (visited st)) \<le> card (set (nodes g))"
    by (intro card_mono) auto
  also have "\<dots> \<le> length (nodes g)" by (rule card_length)
  finally have "card (set (nodes g) - insert n (visited st)) < fuel" using assms(3) by simp
  from forward_finishes(1)[OF assms(1,2) this] show ?thesis .
qed

lemma forward_label_outside:
  assumes "n \<notin> set (nodes g)"
  shows "forward_label ev g n p = Inl KeyError"
proof -
  from assms have "map_of (node_data g) n = None"
    by (simp add: nodes_def map_of_eq_None_iff)
  then show ?thesis by (simp add: forward_label_def node_attrs_of_def)
qed

lemma cycle_wf: "wf_graph cycle_graph"
  by (simp add: wf_graph_def cycle_graph_def nodes_def)

lemma cycle_nodes: "nodes cycle_graph = [''A'', ''B'', ''C'']"
  by (simp add: cycle_graph_def nodes_def)




section \<open>Further lemmas on the reverse traversal\<close>

text \<open>The reverse traversal prints label lines only, and the notice at the end.\<close>

lemma rwalks_no_already_visited:
  "rwalks ev g md gen n p il d st st' \<Longrightarrow> AlreadyVisited c \<notin> fst ` set (out st)
     \<Longrightarrow> AlreadyVisited c \<notin> fst ` set (out st')"
  "rchildren ev g md gen p il cnt d cs st st' \<Longrightarrow> AlreadyVisited c \<notin> fst ` set (out st)
     \<Longrightarrow> AlreadyVisited c \<notin> fst ` set (out st')"
proof (induction rule: rwalks_rchildren.inducts)
  case (r_emit n st d cs p il st2 st')
  from r_emit(6) r_emit.prems have "AlreadyVisited c \<notin> fst ` set (out st2)" by simp
  with emit_node_Inr(4)[OF r_emit(7)] show ?case by auto
qed auto

lemma source_loop_no_already_visited:
  "source_loop fuel ev g md gen cnt srcs st = Some (Inr st') \<Longrightarrow> visited st = {}
     \<Longrightarrow> AlreadyVisited c \<notin> fst ` set (out st)
     \<Longrightarrow> AlreadyVisited c \<notin> fst ` set (out st')"
proof (induction srcs arbitrary: st)
  case Nil
  then show ?case by simp
next
  case (Cons x rest)
  obtain i s where x: "x = (i, s)" by (cases x)
  have p: "source_loop fuel ev g md gen cnt ((i, s) # rest) st = Some (Inr st')"
    using Cons.prems(1) unfolding x .
  from p Cons.prems(2) obtain st1 where
    w: "rwalks ev g md gen s '''' (int i = int cnt - 1) 0 st st1"
    and l: "source_loop fuel ev g md gen cnt rest st1 = Some (Inr st')"
    and v: "visited st1 = {}"
    by (rule source_loop_Cons)
  from rwalks_no_already_visited(1)[OF w Cons.prems(3)]
  have "AlreadyVisited c \<notin> fst ` set (out st1)" .
  from Cons.IH[OF l v this] show ?case .
qed

lemma reverse_run_no_already_visited:
  assumes "print_dag_in_reverse fuel ev g md gen = Some (Inr st)"
  shows "AlreadyVisited c \<notin> fst ` set (out st)"
proof -
  from assms obtain st0 where
    l: "source_loop fuel ev g md gen (length (source_nodes g)) (enumerate 0 (source_nodes g))
          initial_rwalk = Some (Inr st0)"
    and o: "out st = out st0 \<or> out st = out st0 @ [(Notice, saved_notice)]"
    by (auto simp: print_dag_in_reverse_def Let_def split: option.splits sum.splits if_splits)
  have "AlreadyVisited c \<notin> fst ` set (out st0)"
    by (rule source_loop_no_already_visited[OF l]) (simp_all add: initial_rwalk_def)
  with o show ?thesis by auto
qed

lemma emit_node_codegen:
  "get_node_label ev g n = Inr l \<Longrightarrow> generate_code ev g n = Inr code \<Longrightarrow> n \<in> visited st \<Longrightarrow>
   emit_node ev g True n p il st =
     Inr (st\<lparr>out := out st @ [(Labelled n, p @ connector_of il @ l)],
             generated_code := generated_code st @ code @ nl @ nl,
             llm_calls := llm_calls st @ [n],
             fully_processed := insert n (fully_processed st),
             visited := visited st - {n}\<rparr>)"
  by (simp add: emit_node_def Let_def set_remove_def)

lemma abc_generate_code:
  "generate_code sample_env abc_graph ''A'' = Inr ''pass''"
  "generate_code sample_env abc_graph ''B'' = Inr ''pass''"
  "generate_code sample_env abc_graph ''C'' = Inr ''pass''"
  by (simp_all add: generate_code_def abc_graph_def node_attrs_of_def request_def dict_get_def
        sample_env_def strip_def is_space_def)

lemma abc_codegen:
  "map_option (map_sum id (\<lambda>st. (llm_calls st, generated_code st, files st)))
     (print_dag_in_reverse 4 sample_env abc_graph None True)
   = Some (Inr ([''C'', ''B'', ''A''],
                ''pass'' @ nl @ nl @ ''pass'' @ nl @ nl @ ''pass'' @ nl @ nl,
                [(''generated_code.txt'',
                  ''pass'' @ nl @ nl @ ''pass'' @ nl @ nl @ ''pass'' @ nl @ nl)]))"
proof -
  obtain la lb lc where
    l: "get_node_label sample_env abc_graph ''A'' = Inr la"
       "get_node_label sample_env abc_graph ''B'' = Inr lb"
       "get_node_label sample_env abc_graph ''C'' = Inr lc"
    using rendering_ok_label[OF abc_rendering[of sample_env], of "''A''"]
      rendering_ok_label[OF abc_rendering[of sample_env], of "''B''"]
      rendering_ok_label[OF abc_rendering[of sample_env], of "''C''"]
    by (auto simp: abc_nodes)
  show ?thesis
    by (simp add: print_dag_in_reverse_def abc_sources eval_nat_numeral initial_rwalk_def
        abc_successors depth_reached_def emit_node_codegen l abc_generate_code Let_def)
qed

lemma cycle_rendering: "rendering_ok ev cycle_graph False"
  by (simp add: rendering_ok_def cycle_graph_def nodes_def get_node_label_def
        node_attrs_of_def request_def dict_get_def)

section \<open>The claims\<close>

subsection \<open>Missing attributes\<close>

text \<open>
  C3. The claim: a node whose attribute dictionary misses expected keys is labelled with
  blank defaults by both traversals, and no error is raised. The code defaults a missing
  \<^verbatim>\<open>content\<close> to the empty string and then calls \<^verbatim>\<open>.get("key", "")\<close> on it. For the
  node \<open>n1\<close> of \<open>bare_graph\<close>, whose attribute dictionary is empty, both labellings
  raise AttributeError, and so do the forward traversal from \<open>n1\<close> and the reverse
  traversal of the graph, in every environment.
\<close>

theorem missing_content_raises:
  "get_node_label ev bare_graph ''n1'' = Inl AttributeError \<and>
   forward_label ev bare_graph ''n1'' new_prefix = Inl AttributeError \<and>
   print_dag (Suc fuel) ev bare_graph ''n1'' '''' True 0 None \<lparr>visited = {}, out = []\<rparr>
     = Some (Inl AttributeError) \<and>
   print_dag_in_reverse (Suc (Suc fuel)) ev bare_graph None False = Some (Inl AttributeError)"
  by (simp add: get_node_label_def forward_label_def bare_graph_def node_attrs_of_def
        dict_get_def print_dag_in_reverse_def source_nodes_def nodes_def in_degree_def
        initial_rwalk_def successors_def depth_reached_def emit_node_def enumerate_eq_zip)

subsection \<open>Depth limits\<close>



text \<open>
  C9. With \<open>max_depth = 0\<close> the reverse traversal of any graph returns having emitted no
  node and called \<^verbatim>\<open>generate_code\<close> for none; when code generation is requested the file
  written is empty. The forward traversal with \<open>max_depth = 0\<close> has labelled its start
  node when it returns.
\<close>

theorem reverse_depth0_emits_nothing:
  "(\<exists>st. print_dag_in_reverse (Suc fuel) ev g (Some 0) gen = Some (Inr st) \<and>
         emitted st = [] \<and> llm_calls st = [] \<and> generated_code st = '''' \<and>
         files st = (if gen then [(''generated_code.txt'', '''')] else [])) \<and>
   print_dag (Suc fuel) ev g n prefix is_last 0 (Some 0) w
     = (case forward_label ev g n (prefix @ indent_of is_last) of
          Inl e \<Rightarrow> Some (Inl e)
        | Inr l \<Rightarrow> Some (Inr (w\<lparr>out := out w @ [(Labelled n, prefix @ connector_of is_last @ l)],
                                 visited := insert n (visited w)\<rparr>)))"
proof -
  have "source_loop (Suc fuel) ev g (Some 0) gen (length (source_nodes g))
          (enumerate 0 (source_nodes g)) initial_rwalk = Some (Inr initial_rwalk)"
    by (rule source_loop_depth0) (simp_all add: initial_rwalk_def)
  then show ?thesis
    by (simp add: print_dag_in_reverse_def Let_def initial_rwalk_def emitted_def
          depth_reached_def split: sum.splits)
qed

subsection \<open>Reverse traversal: what is emitted, and in which order\<close>

text \<open>
  C1. For a graph as the \<^verbatim>\<open>DiGraph\<close> class keeps it, whose nodes can be labelled (and,
  when code is generated, synthesised) without an exception, and a call stack deeper than
  the number of nodes, the reverse traversal without depth limit returns, and the nodes
  it emitted are exactly the nodes reachable from a node of in-degree 0, each of them
  once: the list of emitted nodes has no duplicates, whatever the number of sources or
  paths that reach a node.
\<close>

theorem reverse_emits_reachable_once:
  assumes "wf_graph g" and "rendering_ok ev g gen" and "length (nodes g) < fuel"
  shows "\<exists>st. print_dag_in_reverse fuel ev g None gen = Some (Inr st) \<and>
              distinct (emitted st) \<and>
              set (emitted st) = (edges g)\<^sup>* `` set (source_nodes g)"
proof -
  from reverse_run_succeeds[OF assms] obtain st where
    st: "print_dag_in_reverse fuel ev g None gen = Some (Inr st)" by blast
  from reverse_run_extends(1,2)[OF st] reverse_run_closed[OF st] st
  show ?thesis by blast
qed

theorem reverse_emits_reachable_once_witness:
  "wf_graph abc_graph \<and> rendering_ok sample_env abc_graph False \<and>
   length (nodes abc_graph) < 4 \<and>
   (\<exists>st. print_dag_in_reverse 4 sample_env abc_graph None False = Some (Inr st) \<and>
         distinct (emitted st) \<and>
         set (emitted st) = (edges abc_graph)\<^sup>* `` set (source_nodes abc_graph) \<and>
         emitted st = [''C'', ''B'', ''A''])"
proof -
  have n: "length (nodes abc_graph) < 4" by (simp add: abc_nodes)
  from reverse_emits_reachable_once[OF abc_wf abc_rendering n, of sample_env]
  obtain st where st: "print_dag_in_reverse 4 sample_env abc_graph None False = Some (Inr st)"
    and d: "distinct (emitted st)"
    and r: "set (emitted st) = (edges abc_graph)\<^sup>* `` set (source_nodes abc_graph)"
    by blast
  from abc_order[of sample_env] st have "emitted st = [''C'', ''B'', ''A'']" by simp
  with abc_wf abc_rendering n st d r show ?thesis by blast
qed

text \<open>
  C2. For an acyclic graph (under the conditions of C1) the reverse traversal without
  depth limit returns, and wherever a node \<open>u\<close> stands in the list of emitted nodes, every
  node reachable from \<open>u\<close> by one or more edges stands before it. For the graph with
  edges A\<rightarrow>B, A\<rightarrow>C, B\<rightarrow>C the emitted list is C, B, A, in every environment.
\<close>

theorem reverse_post_order:
  "(wf_graph g \<and> acyclic (edges g) \<and> rendering_ok ev g gen \<and> length (nodes g) < fuel \<longrightarrow>
     (\<exists>st. print_dag_in_reverse fuel ev g None gen = Some (Inr st) \<and>
           (\<forall>a u b v. emitted st = a @ u # b \<and> (u, v) \<in> (edges g)\<^sup>+ \<longrightarrow> v \<in> set a))) \<and>
   map_option (map_sum id emitted) (print_dag_in_reverse 4 ev' abc_graph None False)
     = Some (Inr [''C'', ''B'', ''A''])"
proof (intro conjI impI)
  assume a: "wf_graph g \<and> acyclic (edges g) \<and> rendering_ok ev g gen \<and> length (nodes g) < fuel"
  then obtain st where st: "print_dag_in_reverse fuel ev g None gen = Some (Inr st)"
    using reverse_run_succeeds by blast
  from reverse_run_in_order[OF st] a have "post_ordered (edges g) (emitted st)" by simp
  then have "\<forall>a u b v. emitted st = a @ u # b \<and> (u, v) \<in> (edges g)\<^sup>+ \<longrightarrow> v \<in> set a"
    using post_ordered_trancl by blast
  with st show "\<exists>st. print_dag_in_reverse fuel ev g None gen = Some (Inr st) \<and>
           (\<forall>a u b v. emitted st = a @ u # b \<and> (u, v) \<in> (edges g)\<^sup>+ \<longrightarrow> v \<in> set a)"
    by blast
next
  show "map_option (map_sum id emitted) (print_dag_in_reverse 4 ev' abc_graph None False)
     = Some (Inr [''C'', ''B'', ''A''])"
    by (rule abc_order)
qed

theorem reverse_post_order_witness:
  "wf_graph abc_graph \<and> acyclic (edges abc_graph) \<and> rendering_ok sample_env abc_graph False \<and>
   length (nodes abc_graph) < 4 \<and>
   (\<exists>st. print_dag_in_reverse 4 sample_env abc_graph None False = Some (Inr st) \<and>
         emitted st = [''C''] @ ''B'' # [''A''] \<and>
         (''B'', ''C'') \<in> (edges abc_graph)\<^sup>+ \<and> ''C'' \<in> set [''C''])"
proof -
  have n: "length (nodes abc_graph) < 4" by (simp add: abc_nodes)
  from reverse_post_order[of abc_graph sample_env False 4 sample_env]
    abc_wf abc_acyclic abc_rendering n
  obtain st where st: "print_dag_in_reverse 4 sample_env abc_graph None False = Some (Inr st)"
    and o: "\<forall>a u b v. emitted st = a @ u # b \<and> (u, v) \<in> (edges abc_graph)\<^sup>+ \<longrightarrow> v \<in> set a"
    and e: "map_option (map_sum id emitted) (print_dag_in_reverse 4 sample_env abc_graph None False)
     = Some (Inr [''C'', ''B'', ''A''])"
    by blast
  from e st have em: "emitted st = [''C''] @ ''B'' # [''A'']" by simp
  have bc: "(''B'', ''C'') \<in> (edges abc_graph)\<^sup>+"
    by (rule r_into_trancl) (simp add: edges_def abc_graph_def)
  from o em bc have "''C'' \<in> set [''C'']" by blast
  with abc_wf abc_acyclic abc_rendering n st em bc show ?thesis by blast
qed

text \<open>
  C4. The claim: in a graph with the cycle A\<rightarrow>B\<rightarrow>C\<rightarrow>A the reverse traversal emits
  exactly two of the three nodes before one is revisited, and terminates. On the cycle
  entered from a source S the traversal emits C, B, A, S: all three nodes of the cycle
  (and none had been emitted when A was met again below C). On the cycle alone no node has
  in-degree 0 and nothing is emitted.
\<close>

theorem cycle_emits_all_three:
  "map_option (map_sum id emitted)
     (print_dag_in_reverse 5 sample_env entered_cycle_graph None False)
     = Some (Inr [''C'', ''B'', ''A'', ''S'']) \<and>
   length (filter (\<lambda>n. n \<in> {''A'', ''B'', ''C''}) [''C'', ''B'', ''A'', ''S'']) = 3 \<and>
   map_option (map_sum id emitted)
     (print_dag_in_reverse 5 sample_env cycle_graph None False) = Some (Inr [])"
  by (simp add: ecg_order)
     (simp add: print_dag_in_reverse_def cycle_sources emitted_initial)

text \<open>
  C4, as amended. In a graph (under the conditions of C1) that contains edges a\<rightarrow>b,
  b\<rightarrow>c and c\<rightarrow>a, the reverse traversal without depth limit returns and emits no
  node twice; it emits all three nodes of the cycle when the cycle is reachable from a
  node of in-degree 0, and none of them otherwise; and no line it prints is an
  already-visited line: a node met again on the current path is skipped without output.
\<close>

theorem reverse_cycle_all_or_none:
  assumes "wf_graph g" and "rendering_ok ev g gen" and "length (nodes g) < fuel"
    and "(a, b) \<in> edges g" and "(b, c) \<in> edges g" and "(c, a) \<in> edges g"
  shows "\<exists>st. print_dag_in_reverse fuel ev g None gen = Some (Inr st) \<and>
              distinct (emitted st) \<and>
              ({a, b, c} \<subseteq> set (emitted st) \<or> {a, b, c} \<inter> set (emitted st) = {}) \<and>
              (if a \<in> (edges g)\<^sup>* `` set (source_nodes g)
               then {a, b, c} \<subseteq> set (emitted st)
               else {a, b, c} \<inter> set (emitted st) = {}) \<and>
              (\<forall>x. AlreadyVisited x \<notin> fst ` set (out st))"
proof -
  from reverse_run_succeeds[OF assms(1-3)] obtain st where
    st: "print_dag_in_reverse fuel ev g None gen = Some (Inr st)" by blast
  let ?R = "(edges g)\<^sup>* `` set (source_nodes g)"
  from reverse_run_extends(2)[OF st] reverse_run_closed[OF st]
  have eq: "set (emitted st) = ?R" by blast
  have step: "y \<in> ?R" if "x \<in> ?R" "(x, y) \<in> edges g" for x y
    using that by (auto intro: rtrancl_into_rtrancl)
  have ab: "a \<in> ?R \<Longrightarrow> b \<in> ?R" and bc: "b \<in> ?R \<Longrightarrow> c \<in> ?R" and ca: "c \<in> ?R \<Longrightarrow> a \<in> ?R"
    using step[OF _ assms(4)] step[OF _ assms(5)] step[OF _ assms(6)] by blast+
  have all: "{a, b, c} \<subseteq> ?R" if "a \<in> ?R" using that ab bc by blast
  have none: "{a, b, c} \<inter> ?R = {}" if "a \<notin> ?R" using that bc ca by blast
  have "{a, b, c} \<subseteq> ?R \<or> {a, b, c} \<inter> ?R = {}" using all none by blast
  moreover have "if a \<in> ?R then {a, b, c} \<subseteq> ?R else {a, b, c} \<inter> ?R = {}"
    using all none by simp
  moreover have "\<forall>x. AlreadyVisited x \<notin> fst ` set (out st)"
    using reverse_run_no_already_visited[OF st] by blast
  ultimately show ?thesis using eq reverse_run_extends(1)[OF st] st
    by (auto split: if_splits)
qed

theorem reverse_cycle_all_or_none_witness:
  "wf_graph entered_cycle_graph \<and> rendering_ok sample_env entered_cycle_graph False \<and>
   length (nodes entered_cycle_graph) < 5 \<and>
   (''A'', ''B'') \<in> edges entered_cycle_graph \<and> (''B'', ''C'') \<in> edges entered_cycle_graph \<and>
   (''C'', ''A'') \<in> edges entered_cycle_graph \<and>
   ''A'' \<in> (edges entered_cycle_graph)\<^sup>* `` set (source_nodes entered_cycle_graph) \<and>
   (\<exists>st. print_dag_in_reverse 5 sample_env entered_cycle_graph None False = Some (Inr st) \<and>
         distinct (emitted st) \<and> emitted st = [''C'', ''B'', ''A'', ''S''] \<and>
         {''A'', ''B'', ''C''} \<subseteq> set (emitted st) \<and>
         AlreadyVisited ''A'' \<notin> fst ` set (out st)) \<and>
   wf_graph cycle_graph \<and> rendering_ok sample_env cycle_graph False \<and>
   length (nodes cycle_graph) < 4 \<and>
   (''A'', ''B'') \<in> edges cycle_graph \<and> (''B'', ''C'') \<in> edges cycle_graph \<and>
   (''C'', ''A'') \<in> edges cycle_graph \<and>
   ''A'' \<notin> (edges cycle_graph)\<^sup>* `` set (source_nodes cycle_graph) \<and>
   (\<exists>st. print_dag_in_reverse 4 sample_env cycle_graph None False = Some (Inr st) \<and>
         {''A'', ''B'', ''C''} \<inter> set (emitted st) = {})"
proof -
  have n: "length (nodes entered_cycle_graph) < 5" by (simp add: ecg_nodes)
  have e: "(''A'', ''B'') \<in> edges entered_cycle_graph"
    "(''B'', ''C'') \<in> edges entered_cycle_graph" "(''C'', ''A'') \<in> edges entered_cycle_graph"
    by (simp_all add: edges_def entered_cycle_graph_def)
  have "(''S'', ''A'') \<in> edges entered_cycle_graph"
    by (simp add: edges_def entered_cycle_graph_def)
  then have r: "''A'' \<in> (edges entered_cycle_graph)\<^sup>* `` set (source_nodes entered_cycle_graph)"
    by (auto simp: ecg_sources)
  note t = reverse_cycle_all_or_none[OF ecg_wf ecg_rendering n e, of sample_env]
  from t obtain st where
    st: "print_dag_in_reverse 5 sample_env entered_cycle_graph None False = Some (Inr st)"
    and d: "distinct (emitted st)"
    and av: "\<forall>x. AlreadyVisited x \<notin> fst ` set (out st)"
    by blast
  from ecg_order[of sample_env] st have em: "emitted st = [''C'', ''B'', ''A'', ''S'']" by simp
  then have sub: "{''A'', ''B'', ''C''} \<subseteq> set (emitted st)" by simp
  from av have av': "AlreadyVisited ''A'' \<notin> fst ` set (out st)" by blast
  from st d em sub av'
  have first: "\<exists>st. print_dag_in_reverse 5 sample_env entered_cycle_graph None False
        = Some (Inr st) \<and>
      distinct (emitted st) \<and> emitted st = [''C'', ''B'', ''A'', ''S''] \<and>
      {''A'', ''B'', ''C''} \<subseteq> set (emitted st) \<and>
      AlreadyVisited ''A'' \<notin> fst ` set (out st)"
    by (intro exI[of _ st] conjI)
  have n': "length (nodes cycle_graph) < 4" by (simp add: cycle_nodes)
  have e': "(''A'', ''B'') \<in> edges cycle_graph"
    "(''B'', ''C'') \<in> edges cycle_graph" "(''C'', ''A'') \<in> edges cycle_graph"
    by (simp_all add: edges_def cycle_graph_def)
  have r': "''A'' \<notin> (edges cycle_graph)\<^sup>* `` set (source_nodes cycle_graph)"
    by (simp add: cycle_sources)
  note t' = reverse_cycle_all_or_none[OF cycle_wf cycle_rendering n' e', of sample_env]
  from t' r' obtain st' where
    st': "print_dag_in_reverse 4 sample_env cycle_graph None False = Some (Inr st')"
    and none: "{''A'', ''B'', ''C''} \<inter> set (emitted st') = {}"
    by (elim exE conjE) simp
  from st' none
  have second: "\<exists>st. print_dag_in_reverse 4 sample_env cycle_graph None False = Some (Inr st) \<and>
      {''A'', ''B'', ''C''} \<inter> set (emitted st) = {}"
    by (intro exI[of _ st'] conjI)
  from ecg_wf ecg_rendering n e r first cycle_wf cycle_rendering n' e' r' second
  show ?thesis by (intro conjI)
qed

subsection \<open>Code generation\<close>

text \<open>
  C7. When code generation is requested (under the conditions of C1, with any depth
  limit), the run returns; \<^verbatim>\<open>generate_code\<close> was called for exactly the emitted nodes,
  in the order of emission and for no node twice; \<^verbatim>\<open>generated_code\<close> is the
  concatenation, in that order, of the texts returned, each followed by two line feeds
  (a blank line after every block, the last included); there is one write, of that
  text to \<^verbatim>\<open>generated_code.txt\<close>, after the walks; and without depth limit the nodes
  \<^verbatim>\<open>generate_code\<close> was called for are all the nodes reachable from a node of in-degree
  0. On the graph A\<rightarrow>B, A\<rightarrow>C, B\<rightarrow>C, with a language model that answers \<^verbatim>\<open>pass\<close>, the
  calls are for C, B, A and the file holds three blocks \<^verbatim>\<open>pass\<close>, each followed by a
  blank line.
\<close>

theorem reverse_code_concatenation:
  assumes "wf_graph g" and "rendering_ok ev g True" and "length (nodes g) < fuel"
  shows "\<exists>st codes. print_dag_in_reverse fuel ev g max_depth True = Some (Inr st) \<and>
           llm_calls st = emitted st \<and> distinct (llm_calls st) \<and>
           map (generate_code ev g) (emitted st) = map Inr codes \<and>
           generated_code st = concat (map (\<lambda>code. code @ nl @ nl) codes) \<and>
           files st = [(''generated_code.txt'', generated_code st)] \<and>
           (max_depth = None \<longrightarrow>
              set (llm_calls st) = (edges g)\<^sup>* `` set (source_nodes g))"
proof -
  from reverse_run_succeeds[OF assms] obtain st where
    st: "print_dag_in_reverse fuel ev g max_depth True = Some (Inr st)" by blast
  from reverse_run_extends(4)[OF st] obtain codes where
    c: "llm_calls st = emitted st"
       "map (generate_code ev g) (emitted st) = map Inr codes"
       "generated_code st = concat (map (\<lambda>code. code @ nl @ nl) codes)"
       "files st = [(''generated_code.txt'', generated_code st)]"
    by blast
  have "max_depth = None \<longrightarrow> set (llm_calls st) = (edges g)\<^sup>* `` set (source_nodes g)"
  proof
    assume "max_depth = None"
    with st have st': "print_dag_in_reverse fuel ev g None True = Some (Inr st)" by simp
    from reverse_run_extends(2)[OF st'] reverse_run_closed[OF st'] c(1)
    show "set (llm_calls st) = (edges g)\<^sup>* `` set (source_nodes g)" by auto
  qed
  with st c reverse_run_extends(1)[OF st] show ?thesis by auto
qed

theorem reverse_code_concatenation_witness:
  "wf_graph abc_graph \<and> rendering_ok sample_env abc_graph True \<and> length (nodes abc_graph) < 4 \<and>
   (\<exists>st. print_dag_in_reverse 4 sample_env abc_graph None True = Some (Inr st) \<and>
      emitted st = [''C'', ''B'', ''A''] \<and> llm_calls st = [''C'', ''B'', ''A''] \<and>
      map (generate_code sample_env abc_graph) (emitted st)
        = map Inr [''pass'', ''pass'', ''pass''] \<and>
      generated_code st = ''pass'' @ nl @ nl @ ''pass'' @ nl @ nl @ ''pass'' @ nl @ nl \<and>
      files st = [(''generated_code.txt'',
                   ''pass'' @ nl @ nl @ ''pass'' @ nl @ nl @ ''pass'' @ nl @ nl)] \<and>
      set (llm_calls st) = (edges abc_graph)\<^sup>* `` set (source_nodes abc_graph))"
proof -
  have n: "length (nodes abc_graph) < 4" by (simp add: abc_nodes)
  note t = reverse_code_concatenation[OF abc_wf abc_rendering_gen n, of None]
  from t obtain st where
    st: "print_dag_in_reverse 4 sample_env abc_graph None True = Some (Inr st)"
    and le: "llm_calls st = emitted st"
    and r: "set (llm_calls st) = (edges abc_graph)\<^sup>* `` set (source_nodes abc_graph)"
    by blast
  from abc_codegen st
  have calls: "llm_calls st = [''C'', ''B'', ''A'']"
    and code: "generated_code st = ''pass'' @ nl @ nl @ ''pass'' @ nl @ nl @ ''pass'' @ nl @ nl"
    and fl: "files st = [(''generated_code.txt'',
                   ''pass'' @ nl @ nl @ ''pass'' @ nl @ nl @ ''pass'' @ nl @ nl)]"
    by simp_all
  from calls le have em: "emitted st = [''C'', ''B'', ''A'']" by simp
  have gc: "map (generate_code sample_env abc_graph) (emitted st)
        = map Inr [''pass'', ''pass'', ''pass'']"
    by (simp add: em abc_generate_code)
  from st em calls gc code fl r
  have "\<exists>st. print_dag_in_reverse 4 sample_env abc_graph None True = Some (Inr st) \<and>
      emitted st = [''C'', ''B'', ''A''] \<and> llm_calls st = [''C'', ''B'', ''A''] \<and>
      map (generate_code sample_env abc_graph) (emitted st)
        = map Inr [''pass'', ''pass'', ''pass''] \<and>
      generated_code st = ''pass'' @ nl @ nl @ ''pass'' @ nl @ nl @ ''pass'' @ nl @ nl \<and>
      files st = [(''generated_code.txt'',
                   ''pass'' @ nl @ nl @ ''pass'' @ nl @ nl @ ''pass'' @ nl @ nl)] \<and>
      set (llm_calls st) = (edges abc_graph)\<^sup>* `` set (source_nodes abc_graph)"
    by (intro exI[of _ st] conjI)
  with abc_wf abc_rendering_gen n show ?thesis by (intro conjI)
qed

subsection \<open>Nodes out of reach of the sources\<close>

text \<open>
  C10. Whatever the depth limit, every node a returned reverse traversal has emitted is
  reachable from a node of in-degree 0. When every node has an incoming edge the
  traversal returns having emitted nothing, and with code generation requested the file
  written is empty.
\<close>

theorem reverse_emits_only_reachable:
  "(print_dag_in_reverse fuel ev g max_depth gen = Some (Inr st) \<longrightarrow>
      set (emitted st) \<subseteq> (edges g)\<^sup>* `` set (source_nodes g)) \<and>
   (list_all (\<lambda>n. 0 < in_degree g n) (nodes g) \<longrightarrow>
      (\<exists>st'. print_dag_in_reverse fuel ev g max_depth gen = Some (Inr st') \<and>
             emitted st' = [] \<and> llm_calls st' = [] \<and> generated_code st' = '''' \<and>
             files st' = (if gen then [(''generated_code.txt'', '''')] else [])))"
proof (intro conjI impI)
  assume "print_dag_in_reverse fuel ev g max_depth gen = Some (Inr st)"
  then show "set (emitted st) \<subseteq> (edges g)\<^sup>* `` set (source_nodes g)"
    by (rule reverse_run_extends(2))
next
  assume "list_all (\<lambda>n. 0 < in_degree g n) (nodes g)"
  then have "source_nodes g = []" by (rule no_sources)
  then show "\<exists>st'. print_dag_in_reverse fuel ev g max_depth gen = Some (Inr st') \<and>
             emitted st' = [] \<and> llm_calls st' = [] \<and> generated_code st' = '''' \<and>
             files st' = (if gen then [(''generated_code.txt'', '''')] else [])"
    by (simp add: print_dag_in_reverse_def initial_rwalk_def emitted_def)
qed

theorem reverse_emits_only_reachable_witness:
  "list_all (\<lambda>n. 0 < in_degree cycle_graph n) (nodes cycle_graph) \<and>
   (\<exists>st. print_dag_in_reverse 4 sample_env cycle_graph None True = Some (Inr st) \<and>
         set (emitted st) \<subseteq> (edges cycle_graph)\<^sup>* `` set (source_nodes cycle_graph) \<and>
         emitted st = [] \<and> llm_calls st = [] \<and> generated_code st = '''' \<and>
         files st = [(''generated_code.txt'', '''')])"
proof -
  note t = reverse_emits_only_reachable[of 4 sample_env cycle_graph None True]
  from t cycle_in_degrees obtain st where
    st: "print_dag_in_reverse 4 sample_env cycle_graph None True = Some (Inr st)"
    and e: "emitted st = []" "llm_calls st = []" "generated_code st = ''''"
      "files st = [(''generated_code.txt'', '''')]"
    by auto
  from t[of st] st have "set (emitted st) \<subseteq> (edges cycle_graph)\<^sup>* `` set (source_nodes cycle_graph)"
    by blast
  with cycle_in_degrees st e show ?thesis by blast
qed

subsection \<open>Forward traversal\<close>



text \<open>
  C8. For a graph as the \<^verbatim>\<open>DiGraph\<close> class keeps it, cyclic or not, every start node,
  depth limit and initial \<^verbatim>\<open>visited\<close> set, the forward traversal ends, with a return or
  an exception, whenever the call stack is deeper than the number of nodes.
\<close>

theorem forward_terminates:
  assumes "wf_graph g" and "length (nodes g) < fuel"
  shows "print_dag fuel ev g start prefix is_last depth max_depth st \<noteq> None"
proof (cases "start \<in> set (nodes g)")
  case True
  have "ffinishes ev g (print_dag fuel ev g start prefix is_last depth max_depth st)"
    using assms(1) True assms(2) by (rule forward_run_finishes)
  then show ?thesis by (auto simp: ffinishes_def split: option.splits)
next
  case False
  from assms(2) obtain f where "fuel = Suc f" by (cases fuel) auto
  with forward_label_outside[OF False] show ?thesis by (simp add: Let_def)
qed

theorem forward_terminates_witness:
  "wf_graph cycle_graph \<and> length (nodes cycle_graph) < 4 \<and>
   print_dag 4 sample_env cycle_graph ''A'' '''' True 0 None \<lparr>visited = {}, out = []\<rparr> \<noteq> None"
proof -
  have n: "length (nodes cycle_graph) < 4" by (simp add: cycle_nodes)
  from forward_terminates[OF cycle_wf n] cycle_wf n show ?thesis by blast
qed

end
